theory Spec2Isabelle
  imports Main "HOL-Library.Word" "HOL-Library.Multiset"
begin

section \<open>JavaScript primitives used by the prover and the matching engine\<close>

text \<open>
  A JavaScript string is modelled by the list of its UTF-8 bytes (\<open>string\<close> is
  \<open>char list\<close>, a \<open>char\<close> is a byte), a \<open>bigint\<close> by \<open>int\<close>, an integral
  \<open>number\<close> (a timestamp, an index, a length) by \<open>int\<close> or \<open>nat\<close>, a
  \<open>Uint8Array\<close> or \<open>Buffer\<close> by \<open>8 word list\<close>. A call that throws returns
  \<open>None\<close>.
\<close>

type_synonym bytes = "8 word list"

text \<open>Reading \<open>xs[i]\<close>: \<open>None\<close> stands for \<open>undefined\<close>.\<close>

definition at :: "'a list \<Rightarrow> nat \<Rightarrow> 'a option" where
  "at xs i = (if i < length xs then Some (xs ! i) else None)"

subsection \<open>\<open>BigInt(string)\<close>\<close>

text \<open>
  \<open>StringToBigInt\<close> of ECMAScript: surrounding white space is dropped; the empty
  string is \<open>0n\<close>; a \<open>0x\<close>, \<open>0o\<close> or \<open>0b\<close> prefix (either case) selects the
  radix and takes no sign; otherwise an optional sign and decimal digits. Anything else
  is a \<open>SyntaxError\<close>.

  The white space of \<open>StrWhiteSpaceChar\<close>, each character by the bytes of its UTF-8
  encoding: TAB, LF, VT, FF, CR, SP, U+00A0, U+1680, U+2000 to U+200A, U+2028, U+2029,
  U+202F, U+205F, U+3000 and U+FEFF. No entry is the beginning or the end of another.
\<close>

definition whiteSpaceChars :: "nat list list" where
  "whiteSpaceChars =
     [[9], [10], [11], [12], [13], [32],
      [194, 160],
      [225, 154, 128],
      [226, 128, 128], [226, 128, 129], [226, 128, 130], [226, 128, 131], [226, 128, 132],
      [226, 128, 133], [226, 128, 134], [226, 128, 135], [226, 128, 136], [226, 128, 137],
      [226, 128, 138],
      [226, 128, 168], [226, 128, 169], [226, 128, 175],
      [226, 129, 159],
      [227, 128, 128],
      [239, 187, 191]]"

definition startsWith :: "nat list \<Rightarrow> nat list \<Rightarrow> bool" where
  "startsWith bs w \<longleftrightarrow> take (length w) bs = w"

text \<open>
  The number of bytes of the white space character at the beginning (at the end) of a
  string, 0 when there is none.
\<close>

definition leadingWhiteSpace :: "string \<Rightarrow> nat" where
  "leadingWhiteSpace s =
     (case filter (startsWith (map of_char s)) whiteSpaceChars of
        [] \<Rightarrow> 0
      | w # _ \<Rightarrow> length w)"

definition trailingWhiteSpace :: "string \<Rightarrow> nat" where
  "trailingWhiteSpace s =
     (case filter (\<lambda>w. startsWith (rev (map of_char s)) (rev w)) whiteSpaceChars of
        [] \<Rightarrow> 0
      | w # _ \<Rightarrow> length w)"

function trimStart :: "string \<Rightarrow> string" where
  "trimStart s =
     (if s = [] \<or> leadingWhiteSpace s = 0 then s else trimStart (drop (leadingWhiteSpace s) s))"
  by pat_completeness auto
termination
  by (relation "measure length") auto

function trimEnd :: "string \<Rightarrow> string" where
  "trimEnd s =
     (if s = [] \<or> trailingWhiteSpace s = 0 then s
      else trimEnd (take (length s - trailingWhiteSpace s) s))"
  by pat_completeness auto
termination
  by (relation "measure length") auto

declare trimStart.simps [simp del] trimEnd.simps [simp del]

definition trim :: "string \<Rightarrow> string" where
  "trim s = trimEnd (trimStart s)"

text \<open>The visible ASCII characters; none is a byte of a white space character.\<close>

definition plainChar :: "char \<Rightarrow> bool" where
  "plainChar c \<longleftrightarrow> 33 \<le> (of_char c :: nat) \<and> (of_char c :: nat) < 127"

definition digitVal :: "char \<Rightarrow> nat option" where
  "digitVal c =
     (let n = (of_char c :: nat) in
      if 48 \<le> n \<and> n \<le> 57 then Some (n - 48)
      else if 97 \<le> n \<and> n \<le> 102 then Some (n - 87)
      else if 65 \<le> n \<and> n \<le> 70 then Some (n - 55)
      else None)"

fun parseDigits :: "nat \<Rightarrow> string \<Rightarrow> nat \<Rightarrow> nat option" where
  "parseDigits r [] acc = Some acc"
| "parseDigits r (c # cs) acc =
     (case digitVal c of
        None \<Rightarrow> None
      | Some d \<Rightarrow> if d < r then parseDigits r cs (acc * r + d) else None)"

definition parseNat :: "nat \<Rightarrow> string \<Rightarrow> nat option" where
  "parseNat r cs = (if cs = [] then None else parseDigits r cs 0)"

definition radixOfPrefix :: "char \<Rightarrow> nat option" where
  "radixOfPrefix c =
     (if c = CHR ''x'' \<or> c = CHR ''X'' then Some 16
      else if c = CHR ''o'' \<or> c = CHR ''O'' then Some 8
      else if c = CHR ''b'' \<or> c = CHR ''B'' then Some 2
      else None)"

definition parseDecimal :: "string \<Rightarrow> int option" where
  "parseDecimal t =
     (case t of
        [] \<Rightarrow> None
      | c # rest \<Rightarrow>
          if c = CHR ''-'' then map_option (\<lambda>n. - int n) (parseNat 10 rest)
          else if c = CHR ''+'' then map_option int (parseNat 10 rest)
          else map_option int (parseNat 10 t))"

definition BigInt :: "string \<Rightarrow> int option" where
  "BigInt s =
     (let t = trim s in
      case t of
        [] \<Rightarrow> Some 0
      | [c] \<Rightarrow> parseDecimal t
      | c # x # rest \<Rightarrow>
          (case (if c = CHR ''0'' then radixOfPrefix x else None) of
             Some r \<Rightarrow> map_option int (parseNat r rest)
           | None \<Rightarrow> parseDecimal t))"

subsection \<open>\<open>toString(radix)\<close>, \<open>padStart\<close>, hexadecimal buffers\<close>

definition digitChar :: "nat \<Rightarrow> char" where
  "digitChar d = (if d < 10 then char_of (48 + d) else char_of (87 + d))"

function natToDigits :: "nat \<Rightarrow> nat \<Rightarrow> string" where
  "natToDigits r n =
     (if r < 2 \<or> n < r then [digitChar n]
      else natToDigits r (n div r) @ [digitChar (n mod r)])"
  by pat_completeness auto
termination
  by (relation "measure (\<lambda>(r, n). n)") auto

declare natToDigits.simps [simp del]

text \<open>\<open>x.toString(radix)\<close> for a \<open>bigint\<close> or an integral \<open>number\<close>.\<close>

definition toStringRadix :: "nat \<Rightarrow> int \<Rightarrow> string" where
  "toStringRadix r i =
     (if i < 0 then CHR ''-'' # natToDigits r (nat (- i)) else natToDigits r (nat i))"

text \<open>\<open>s.padStart(n, c)\<close> with a one-character filler.\<close>

definition padStart :: "nat \<Rightarrow> char \<Rightarrow> string \<Rightarrow> string" where
  "padStart n c s = replicate (n - length s) c @ s"

text \<open>
  \<open>Buffer.from(s, "hex")\<close> of Node.js: two hexadecimal digits give one byte; decoding
  stops at the first pair that is not two hexadecimal digits, and a trailing single
  character is dropped.
\<close>

fun Buffer_from_hex :: "string \<Rightarrow> bytes" where
  "Buffer_from_hex (a # b # rest) =
     (case (digitVal a, digitVal b) of
        (Some x, Some y) \<Rightarrow> of_nat (16 * x + y) # Buffer_from_hex rest
      | _ \<Rightarrow> [])"
| "Buffer_from_hex _ = []"

text \<open>\<open>Buffer.from(s)\<close>: the UTF-8 bytes of the string.\<close>

definition Buffer_from :: "string \<Rightarrow> bytes" where
  "Buffer_from s = map of_char s"

text \<open>\<open>buf.toString("hex")\<close>: two lower-case hexadecimal digits per byte.\<close>

definition Buffer_toString_hex :: "bytes \<Rightarrow> string" where
  "Buffer_toString_hex bs =
     concat (map (\<lambda>b. [digitChar (unat b div 16), digitChar (unat b mod 16)]) bs)"

section \<open>The scalar field and Poseidon\<close>

text \<open>
  Modelled from the spec: the BN254 scalar-field prime, the modulus of the field object
  \<open>F\<close> of circomlibjs, which is not part of the repository.
\<close>

definition bn254_r :: int where
  "bn254_r = 21888242871839275222246405745257275088548364400416034343698204186575808495617"

text \<open>
  A field element is kept as its least residue. \<open>F.e\<close> reduces a \<open>bigint\<close> into
  the field, \<open>F.toObject\<close> reads the residue back, \<open>F.toString\<close> prints it in
  decimal. The Poseidon hash itself lives in circomlibjs: it is a parameter
  \<open>poseidon\<close>, a function from the list of inputs to the digest.
\<close>

type_synonym Fr = int
type_synonym poseidon_fn = "Fr list \<Rightarrow> Fr"

definition F_e :: "int \<Rightarrow> Fr" where
  "F_e x = x mod bn254_r"

definition F_toObject :: "Fr \<Rightarrow> int" where
  "F_toObject x = x"

definition F_toString :: "Fr \<Rightarrow> string" where
  "F_toString x = toStringRadix 10 x"

section \<open>Commitment service (prover)\<close>

text \<open>\<open>hashAsset\<close> of the prover.\<close>

definition hashAsset :: "poseidon_fn \<Rightarrow> string \<Rightarrow> string option" where
  "hashAsset poseidon assetAddress =
     (case BigInt (''0x'' @ Buffer_toString_hex (Buffer_from assetAddress)) of
        None \<Rightarrow> None
      | Some n \<Rightarrow> Some (F_toString (poseidon [F_e n])))"

text \<open>\<open>hashAssetAddress\<close>, the copy kept by the matching engine.\<close>

definition hashAssetAddress :: "poseidon_fn \<Rightarrow> string \<Rightarrow> string option" where
  "hashAssetAddress poseidon assetAddress =
     (case BigInt (''0x'' @ Buffer_toString_hex (Buffer_from assetAddress)) of
        None \<Rightarrow> None
      | Some n \<Rightarrow> Some (F_toString (poseidon [F_e n])))"

text \<open>\<open>computeNullifier\<close>: the two secrets are added as \<open>bigint\<close>s before \<open>F.e\<close>.\<close>

definition computeNullifier ::
  "poseidon_fn \<Rightarrow> string \<Rightarrow> string \<Rightarrow> int \<Rightarrow> int \<Rightarrow> int \<Rightarrow> string option" where
  "computeNullifier poseidon buyCommitment sellCommitment quantity buyerSecret sellerSecret =
     (case BigInt buyCommitment of
        None \<Rightarrow> None
      | Some b \<Rightarrow>
          (case BigInt sellCommitment of
             None \<Rightarrow> None
           | Some s \<Rightarrow>
               Some (F_toString (poseidon
                 [F_e b, F_e s, F_e quantity, F_e (buyerSecret + sellerSecret)]))))"

text \<open>
  \<open>OrderSide\<close> is a numeric enum and the submission route casts any number to it, so a
  side is an \<open>int\<close>.
\<close>

type_synonym OrderSide = int

definition Buy :: OrderSide where
  "Buy = 0"

definition Sell :: OrderSide where
  "Sell = 1"

subsection \<open>Random draws and order commitments\<close>

text \<open>
  The random source is a stream of bytes. \<open>crypto.getRandomValues\<close> (or the Node.js
  fallback) fills an array of the requested length from it and moves on.
\<close>

type_synonym rng = "nat \<Rightarrow> 8 word"

definition getRandomValues :: "rng \<Rightarrow> nat \<Rightarrow> bytes \<times> rng" where
  "getRandomValues g n = (map g [0..<n], \<lambda>k. g (k + n))"

text \<open>\<open>randomBytes\<close>: each byte as two hexadecimal digits.\<close>

definition randomBytes :: "rng \<Rightarrow> nat \<Rightarrow> string \<times> rng" where
  "randomBytes g len =
     (case getRandomValues g len of
        (bs, g') \<Rightarrow>
          (concat (map (\<lambda>b. padStart 2 CHR ''0'' (toStringRadix 16 (uint b))) bs), g'))"

text \<open>The fields of \<open>OrderParams\<close> and \<open>OrderCommitment\<close> carry a prefix here.\<close>

record OrderParams =
  param_assetHash :: int
  param_side :: OrderSide
  param_quantity :: int
  param_price :: int

record OrderCommitment =
  oc_commitment :: string
  oc_secret :: int
  oc_nonce :: int

text \<open>
  \<open>generateOrderCommitment\<close>: the secret is drawn and read first, then the nonce; both
  are returned as read, and reduced by \<open>F.e\<close> only on their way into the hash.
\<close>

definition generateOrderCommitment ::
  "poseidon_fn \<Rightarrow> OrderParams \<Rightarrow> rng \<Rightarrow> OrderCommitment option \<times> rng" where
  "generateOrderCommitment poseidon params g =
     (case randomBytes g 32 of (h1, g1) \<Rightarrow>
        (case BigInt (''0x'' @ h1) of
           None \<Rightarrow> (None, g1)
         | Some s \<Rightarrow>
             (case randomBytes g1 32 of (h2, g2) \<Rightarrow>
                (case BigInt (''0x'' @ h2) of
                   None \<Rightarrow> (None, g2)
                 | Some n \<Rightarrow>
                     (Some \<lparr>oc_commitment = F_toString (poseidon
                               [F_e (param_assetHash params), F_e (param_side params),
                                F_e (param_quantity params), F_e (param_price params),
                                F_e n, F_e s]),
                            oc_secret = s, oc_nonce = n\<rparr>, g2)))))"

section \<open>Proof encoding for the on-chain verifier (prover)\<close>

text \<open>
  A proof of snarkjs: \<open>pi_a\<close> and \<open>pi_c\<close> are lists of decimal strings, \<open>pi_b\<close> a
  list of such lists. Reading past the end of a list gives \<open>undefined\<close>, on which
  \<open>BigInt\<close> and a further index both throw.
\<close>

record Groth16Proof =
  pi_a :: "string list"
  pi_b :: "string list list"
  pi_c :: "string list"

definition toBytes32 :: "string option \<Rightarrow> string option" where
  "toBytes32 v =
     (case v of
        None \<Rightarrow> None
      | Some s \<Rightarrow>
          (case BigInt s of
             None \<Rightarrow> None
           | Some n \<Rightarrow> Some (padStart 64 CHR ''0'' (toStringRadix 16 n))))"

definition g1ToBytes :: "string list \<Rightarrow> string option" where
  "g1ToBytes point =
     (case toBytes32 (at point 0) of None \<Rightarrow> None | Some x \<Rightarrow>
      case toBytes32 (at point 1) of None \<Rightarrow> None | Some y \<Rightarrow> Some (x @ y))"

definition g2ToBytes :: "string list list \<Rightarrow> string option" where
  "g2ToBytes point =
     (case toBytes32 (Option.bind (at point 0) (\<lambda>c. at c 1)) of None \<Rightarrow> None | Some x1 \<Rightarrow>
      case toBytes32 (Option.bind (at point 0) (\<lambda>c. at c 0)) of None \<Rightarrow> None | Some x0 \<Rightarrow>
      case toBytes32 (Option.bind (at point 1) (\<lambda>c. at c 1)) of None \<Rightarrow> None | Some y1 \<Rightarrow>
      case toBytes32 (Option.bind (at point 1) (\<lambda>c. at c 0)) of None \<Rightarrow> None | Some y0 \<Rightarrow>
        Some (x1 @ x0 @ y1 @ y0))"

definition convertProofForSoroban :: "Groth16Proof \<Rightarrow> string list \<Rightarrow> (bytes \<times> bytes) option" where
  "convertProofForSoroban prf publicSignals =
     (case g1ToBytes (pi_a prf) of None \<Rightarrow> None | Some a \<Rightarrow>
      case g2ToBytes (pi_b prf) of None \<Rightarrow> None | Some b \<Rightarrow>
      case g1ToBytes (pi_c prf) of None \<Rightarrow> None | Some c \<Rightarrow>
        (let proofHex = a @ b @ c;
             numSignals = length publicSignals;
             lengthHex = padStart 8 CHR ''0'' (toStringRadix 16 (int numSignals))
         in case those (map (\<lambda>s. toBytes32 (Some s)) publicSignals) of
              None \<Rightarrow> None
            | Some hs \<Rightarrow>
                Some (Buffer_from_hex proofHex, Buffer_from_hex (lengthHex @ concat hs))))"

subsection \<open>Big-endian bytes\<close>

text \<open>
  The value of a byte string read big-endian, and the \<open>k\<close>-byte big-endian encoding of
  a number (of its residue modulo \<open>256 ^ k\<close>).
\<close>

definition be_nat :: "bytes \<Rightarrow> nat" where
  "be_nat bs = foldl (\<lambda>acc b. acc * 256 + unat b) 0 bs"

fun be_bytes :: "nat \<Rightarrow> nat \<Rightarrow> bytes" where
  "be_bytes 0 n = []"
| "be_bytes (Suc k) n = be_bytes k (n div 256) @ [of_nat (n mod 256)]"

text \<open>The \<open>k\<close> low digits of \<open>n\<close> in radix \<open>r\<close>, most significant first.\<close>

fun fixedDigits :: "nat \<Rightarrow> nat \<Rightarrow> nat \<Rightarrow> string" where
  "fixedDigits r 0 n = []"
| "fixedDigits r (Suc k) n = fixedDigits r k (n div r) @ [digitChar (n mod r)]"

text \<open>A string that \<open>BigInt\<close> reads as a number in the range of 32 bytes.\<close>

definition coordinate :: "string \<Rightarrow> nat \<Rightarrow> bool" where
  "coordinate s n \<longleftrightarrow> BigInt s = Some (int n) \<and> n < 2 ^ 256"

subsection \<open>Concrete inputs for the prover\<close>

text \<open>A stand-in for Poseidon with small digests, for concrete runs.\<close>

definition toyPoseidon :: poseidon_fn where
  "toyPoseidon xs = foldl (\<lambda>h x. (h * 31 + x + 7) mod 1000003) 1 xs"

definition allOnes :: rng where
  "allOnes k = 255"

definition exampleParams :: OrderParams where
  "exampleParams = \<lparr>param_assetHash = 5, param_side = Buy, param_quantity = 100, param_price = 50\<rparr>"

definition exampleProof :: Groth16Proof where
  "exampleProof = \<lparr>pi_a = [''1'', ''2'', ''1''],
                    pi_b = [[''3'', ''4''], [''5'', ''6''], [''1'', ''0'']],
                    pi_c = [''7'', ''8'', ''1'']\<rparr>"

definition wideSignal :: string where
  "wideSignal = ''1852673427797059126777135760139006525652319754650249024631321344126610074238976''"

section \<open>Whitelist tree (prover)\<close>

text \<open>The depth of the tree fixed by the circuit.\<close>

definition TREE_DEPTH :: nat where
  "TREE_DEPTH = 20"

record MerkleProof =
  idHash :: string
  pathElements :: "string list"
  pathIndices :: "nat list"

text \<open>
  \<open>Math.ceil(Math.log2(m))\<close> for a count \<open>m \<ge> 1\<close> is the least \<open>d\<close> with
  \<open>m \<le> 2 ^ d\<close>; \<open>ceilLog2From 0 m\<close> finds it by counting up. (The source computes
  it on doubles; the model takes the exact value.) The dense depth is
  \<open>max(1, ceil(log2(max(2, n))))\<close>.
\<close>

function ceilLog2From :: "nat \<Rightarrow> nat \<Rightarrow> nat" where
  "ceilLog2From d m = (if m \<le> 2 ^ d then d else ceilLog2From (Suc d) m)"
  by pat_completeness auto
termination
proof (relation "measure (\<lambda>(d, m). m - 2 ^ d)")
  show "wf (measure (\<lambda>(d, m). m - 2 ^ d))" by simp
next
  fix d m :: nat
  assume "\<not> m \<le> 2 ^ d"
  moreover have "(0 :: nat) < 2 ^ d" by simp
  ultimately have "m - 2 * 2 ^ d < m - 2 ^ d" by linarith
  then show "((Suc d, m), (d, m)) \<in> measure (\<lambda>(d, m). m - 2 ^ d)"
    by simp
qed

declare ceilLog2From.simps [simp del]

definition actualDepthOf :: "nat \<Rightarrow> nat" where
  "actualDepthOf n = max 1 (ceilLog2From 0 (max 2 n))"

text \<open>The array \<open>zeros\<close> after \<open>n\<close> further pushes, the last entry so far being \<open>z\<close>.\<close>

fun zerosFrom :: "poseidon_fn \<Rightarrow> nat \<Rightarrow> int \<Rightarrow> int list" where
  "zerosFrom poseidon 0 z = [z]"
| "zerosFrom poseidon (Suc n) z =
     z # zerosFrom poseidon n (F_toObject (poseidon [F_e z, F_e z]))"

text \<open>
  One level up: the inner loop over \<open>i += 2\<close>. With an odd number of nodes the last
  \<open>right\<close> is \<open>undefined\<close>, on which \<open>F.e\<close> throws.
\<close>

fun nextLevel :: "poseidon_fn \<Rightarrow> int list \<Rightarrow> int list option" where
  "nextLevel poseidon [] = Some []"
| "nextLevel poseidon [left] = None"
| "nextLevel poseidon (left # right # rest) =
     map_option ((#) (F_toObject (poseidon [F_e left, F_e right]))) (nextLevel poseidon rest)"

text \<open>The levels above \<open>currentLevel\<close> built by \<open>n\<close> rounds of the outer loop.\<close>

fun buildLevels :: "poseidon_fn \<Rightarrow> nat \<Rightarrow> int list \<Rightarrow> int list list option" where
  "buildLevels poseidon 0 currentLevel = Some []"
| "buildLevels poseidon (Suc n) currentLevel =
     (case nextLevel poseidon currentLevel of
        None \<Rightarrow> None
      | Some nxt \<Rightarrow> map_option ((#) nxt) (buildLevels poseidon n nxt))"

text \<open>
  The loop that extends the root from \<open>level\<close> for \<open>n\<close> rounds, hashing with
  \<open>zeros[level]\<close> on the right.
\<close>

fun extendRoot :: "poseidon_fn \<Rightarrow> int list \<Rightarrow> nat \<Rightarrow> nat \<Rightarrow> int \<Rightarrow> int option" where
  "extendRoot poseidon zeros level 0 extendedRoot = Some extendedRoot"
| "extendRoot poseidon zeros level (Suc n) extendedRoot =
     (case at zeros level of
        None \<Rightarrow> None
      | Some z \<Rightarrow>
          extendRoot poseidon zeros (Suc level) n
            (F_toObject (poseidon [F_e extendedRoot, F_e z])))"

text \<open>
  The walk up the dense tree for one participant: \<open>n\<close> rounds from \<open>level\<close>, at
  position \<open>index\<close>. It gives \<open>pathElements\<close> and \<open>pathIndices\<close>.
\<close>

fun walkUp :: "int list list \<Rightarrow> nat \<Rightarrow> nat \<Rightarrow> nat \<Rightarrow> (string list \<times> nat list) option" where
  "walkUp treeLevels level 0 index = Some ([], [])"
| "walkUp treeLevels level (Suc n) index =
     (let isRight = (index mod 2 = 1);
          siblingIndex = (if isRight then index - 1 else index + 1)
      in case Option.bind (at treeLevels level) (\<lambda>lv. at lv siblingIndex) of
           None \<Rightarrow> None
         | Some sibling \<Rightarrow>
             map_option
               (\<lambda>(es, is). (toStringRadix 10 sibling # es, (if isRight then 1 else 0) # is))
               (walkUp treeLevels (Suc level) n (index div 2)))"

text \<open>The second loop of a proof: the zero subtrees, always on the right.\<close>

fun zeroPath :: "int list \<Rightarrow> nat \<Rightarrow> nat \<Rightarrow> (string list \<times> nat list) option" where
  "zeroPath zeros level 0 = Some ([], [])"
| "zeroPath zeros level (Suc n) =
     (case at zeros level of
        None \<Rightarrow> None
      | Some z \<Rightarrow>
          map_option (\<lambda>(es, is). (toStringRadix 10 z # es, 0 # is))
            (zeroPath zeros (Suc level) n))"

text \<open>The proof stored for participant \<open>i\<close>.\<close>

definition makeProof ::
  "int list list \<Rightarrow> int list \<Rightarrow> int list \<Rightarrow> nat \<Rightarrow> nat \<Rightarrow> MerkleProof option" where
  "makeProof treeLevels zeros leaves actualDepth i =
     (case walkUp treeLevels 0 actualDepth i of
        None \<Rightarrow> None
      | Some (es1, is1) \<Rightarrow>
          (case zeroPath zeros actualDepth (TREE_DEPTH - actualDepth) of
             None \<Rightarrow> None
           | Some (es2, is2) \<Rightarrow>
               (case at leaves i of
                  None \<Rightarrow> None
                | Some leaf \<Rightarrow>
                    Some \<lparr>idHash = toStringRadix 10 leaf,
                          pathElements = es1 @ es2,
                          pathIndices = is1 @ is2\<rparr>)))"

text \<open>
  \<open>buildWhitelistTree\<close>: the root as a decimal string and the map from participant
  index to proof; \<open>None\<close> when a step throws.
\<close>

definition buildWhitelistTree ::
  "poseidon_fn \<Rightarrow> string list \<Rightarrow> (string \<times> (nat \<rightharpoonup> MerkleProof)) option" where
  "buildWhitelistTree poseidon participants =
     (case those (map (\<lambda>p. map_option (\<lambda>n. F_toObject (poseidon [F_e n])) (BigInt p))
                   participants) of
        None \<Rightarrow> None
      | Some hashed \<Rightarrow>
          (let actualDepth = actualDepthOf (length hashed);
               numLeaves = 2 ^ actualDepth;
               leaves = hashed @ replicate (numLeaves - length hashed) 0;
               zeros = zerosFrom poseidon TREE_DEPTH 0
           in case buildLevels poseidon actualDepth leaves of
                None \<Rightarrow> None
              | Some upper \<Rightarrow>
                  (let treeLevels = leaves # upper
                   in case at (last treeLevels) 0 of
                        None \<Rightarrow> None
                      | Some root0 \<Rightarrow>
                          (case extendRoot poseidon zeros actualDepth
                                  (TREE_DEPTH - actualDepth) root0 of
                             None \<Rightarrow> None
                           | Some extendedRoot \<Rightarrow>
                               (case those (map (makeProof treeLevels zeros leaves actualDepth)
                                             [0..<length participants]) of
                                  None \<Rightarrow> None
                                | Some ps \<Rightarrow>
                                    Some (toStringRadix 10 extendedRoot,
                                          map_of (zip [0..<length participants] ps)))))))"

subsection \<open>The inclusion check of the circuit\<close>

text \<open>
  The templates \<open>DualMux\<close>, \<open>MerkleLevel\<close>, \<open>MerkleTreeProof\<close> and
  \<open>MerkleTreeVerifier\<close> of the Merkle circuit, over field elements: a constraint that
  does not hold gives \<open>None\<close> (or \<open>False\<close>). \<open>Poseidon(2)\<close> of the circuit is the
  same function as the \<open>poseidon\<close> of the prover.
\<close>

definition DualMux :: "Fr \<Rightarrow> Fr \<Rightarrow> Fr \<Rightarrow> (Fr \<times> Fr) option" where
  "DualMux L R sel =
     (if (sel * (sel - 1)) mod bn254_r \<noteq> 0 then None
      else Some ((L + (R - L) * sel) mod bn254_r, (R + (L - R) * sel) mod bn254_r))"

definition MerkleLevel :: "poseidon_fn \<Rightarrow> Fr \<Rightarrow> Fr \<Rightarrow> Fr" where
  "MerkleLevel poseidon l r = poseidon [l, r]"

fun MerkleTreeProof :: "poseidon_fn \<Rightarrow> Fr \<Rightarrow> Fr list \<Rightarrow> Fr list \<Rightarrow> Fr option" where
  "MerkleTreeProof poseidon h [] [] = Some h"
| "MerkleTreeProof poseidon h (e # es) (s # ss) =
     (if (s * (s - 1)) mod bn254_r \<noteq> 0 then None
      else case DualMux h e s of
             None \<Rightarrow> None
           | Some (l, r) \<Rightarrow> MerkleTreeProof poseidon (MerkleLevel poseidon l r) es ss)"
| "MerkleTreeProof poseidon h _ _ = None"

definition MerkleTreeVerifier ::
  "nat \<Rightarrow> poseidon_fn \<Rightarrow> Fr \<Rightarrow> Fr list \<Rightarrow> Fr list \<Rightarrow> Fr \<Rightarrow> bool" where
  "MerkleTreeVerifier levels poseidon leaf els idxs expectedRoot \<longleftrightarrow>
     length els = levels \<and> length idxs = levels \<and>
     MerkleTreeProof poseidon leaf els idxs = Some expectedRoot"

text \<open>
  The check applied to a proof and a root as the prover hands them to the circuit: the
  decimal strings are read as integers and reduced into the field.
\<close>

definition verifyInclusion :: "poseidon_fn \<Rightarrow> MerkleProof \<Rightarrow> string \<Rightarrow> bool" where
  "verifyInclusion poseidon prf root =
     (case (BigInt (idHash prf), those (map BigInt (pathElements prf)), BigInt root) of
        (Some leaf, Some els, Some rt) \<Rightarrow>
          MerkleTreeVerifier TREE_DEPTH poseidon (F_e leaf) (map F_e els)
            (map (\<lambda>i. F_e (int i)) (pathIndices prf)) (F_e rt)
      | _ \<Rightarrow> False)"


text \<open>Lists of least residues, and hashes whose digests are least residues.\<close>

definition canon :: "int list \<Rightarrow> bool" where
  "canon xs \<longleftrightarrow> (\<forall>x \<in> set xs. 0 \<le> x \<and> x < bn254_r)"

definition fieldHash :: "poseidon_fn \<Rightarrow> bool" where
  "fieldHash poseidon \<longleftrightarrow> (\<forall>xs. 0 \<le> poseidon xs \<and> poseidon xs < bn254_r)"

text \<open>
  For the statements about the root: the node at height \<open>l\<close> and position \<open>j\<close> of
  the full binary Poseidon tree over a sequence of leaves (the root of the tree of depth
  \<open>D\<close> is the node at height \<open>D\<close> and position 0), and the leaves of the whitelist
  tree: the hash of the \<open>m\<close>-th participant ID, and the zero leaf beyond the list.
\<close>

fun treeNode :: "poseidon_fn \<Rightarrow> (nat \<Rightarrow> int) \<Rightarrow> nat \<Rightarrow> nat \<Rightarrow> int" where
  "treeNode poseidon leaf 0 j = leaf j"
| "treeNode poseidon leaf (Suc l) j =
     poseidon [treeNode poseidon leaf l (2 * j), treeNode poseidon leaf l (2 * j + 1)]"

definition whitelistLeaf :: "poseidon_fn \<Rightarrow> string list \<Rightarrow> nat \<Rightarrow> int" where
  "whitelistLeaf poseidon participants m =
     (if m < length participants
      then (case BigInt (participants ! m) of
              Some k \<Rightarrow> F_toObject (poseidon [F_e k])
            | None \<Rightarrow> 0)
      else 0)"

text \<open>
  The position of a leaf that a list of path indices spells out, the index of the lowest
  level first: 0 for a left child, 1 for a right child.
\<close>

fun pathPosition :: "nat list \<Rightarrow> nat" where
  "pathPosition [] = 0"
| "pathPosition (b # bs) = b + 2 * pathPosition bs"

section \<open>Order book and matcher (matching engine)\<close>

text \<open>
  The field \<open>whitelistIndex\<close> of an order is declared a \<open>number\<close>. The submission
  route can also store a member of \<open>Object.prototype\<close> there (see
  \<open>getWhitelistIndex\<close>); \<open>Inherited k\<close> stands for the member named \<open>k\<close>.
\<close>

datatype WhitelistIndex = Index int | Inherited string

record PrivateOrder =
  commitment :: string
  trader :: string
  assetAddress :: string
  side :: OrderSide
  quantity :: int
  price :: int
  secret :: int
  nonce :: int
  timestamp :: int
  expiry :: int
  whitelistIndex :: WhitelistIndex

text \<open>The field \<open>timestamp\<close> of a match is \<open>matchTimestamp\<close> here.\<close>

record Match =
  matchId :: string
  buyOrder :: PrivateOrder
  sellOrder :: PrivateOrder
  executionPrice :: int
  executionQuantity :: int
  matchTimestamp :: int

text \<open>
  The engine: the two maps from asset address to orders, the match queue and the log of
  completed matches. (The whitelist fields and the RPC handle take no part in matching.)
\<close>

record Engine =
  buyOrders :: "string \<rightharpoonup> PrivateOrder list"
  sellOrders :: "string \<rightharpoonup> PrivateOrder list"
  matchQueue :: "Match list"
  completedMatches :: "Match list"

definition newEngine :: Engine where
  "newEngine = \<lparr>buyOrders = Map.empty, sellOrders = Map.empty,
                 matchQueue = [], completedMatches = []\<rparr>"

text \<open>
  What the matcher reads from outside: \<open>generateMatchId()\<close> (32 random bytes in
  hexadecimal) and \<open>Date.now()\<close>. Both are given as functions of the number of matches
  completed so far.
\<close>

record Env =
  generateMatchId :: "nat \<Rightarrow> string"
  Date_now :: "nat \<Rightarrow> int"

text \<open>Division of \<open>bigint\<close>s rounds towards zero.\<close>

definition bigint_div :: "int \<Rightarrow> int \<Rightarrow> int" where
  "bigint_div a b = sgn a * sgn b * (\<bar>a\<bar> div \<bar>b\<bar>)"

text \<open>
  The comparators given to \<open>sort\<close>. \<open>Number(d)\<close> of a \<open>bigint\<close> difference keeps
  its sign, which is all that \<open>sort\<close> reads.
\<close>

definition compareBuys :: "PrivateOrder \<Rightarrow> PrivateOrder \<Rightarrow> int" where
  "compareBuys a b =
     (if price a \<noteq> price b then price b - price a else timestamp a - timestamp b)"

definition compareSells :: "PrivateOrder \<Rightarrow> PrivateOrder \<Rightarrow> int" where
  "compareSells a b =
     (if price a \<noteq> price b then price a - price b else timestamp a - timestamp b)"

text \<open>
  \<open>Array.prototype.sort\<close> is stable; with a consistent comparator its result is the
  stable sorted arrangement, computed here by insertion from the right.
\<close>

fun insertSorted :: "('a \<Rightarrow> 'a \<Rightarrow> int) \<Rightarrow> 'a \<Rightarrow> 'a list \<Rightarrow> 'a list" where
  "insertSorted cmp x [] = [x]"
| "insertSorted cmp x (y # ys) =
     (if cmp x y \<le> 0 then x # y # ys else y # insertSorted cmp x ys)"

definition Array_sort :: "('a \<Rightarrow> 'a \<Rightarrow> int) \<Rightarrow> 'a list \<Rightarrow> 'a list" where
  "Array_sort cmp xs = foldr (insertSorted cmp) xs []"

text \<open>
  The inner loop over the sells, from index \<open>j\<close>: the index at which the loop breaks
  with a match, or \<open>None\<close> when it runs to the end.
\<close>

function findSell ::
  "PrivateOrder \<Rightarrow> PrivateOrder list \<Rightarrow> nat set \<Rightarrow> nat \<Rightarrow> nat option" where
  "findSell buy sells matchedSells j =
     (if j < length sells then
        (if j \<in> matchedSells then findSell buy sells matchedSells (j + 1)
         else if price buy < price (sells ! j)
           then findSell buy sells matchedSells (j + 1)
         else if quantity buy \<noteq> quantity (sells ! j)
           then findSell buy sells matchedSells (j + 1)
         else Some j)
      else None)"
  by pat_completeness auto
termination
  by (relation "measure (\<lambda>(b, sells, m, j). length sells - j)") auto

declare findSell.simps [simp del]

text \<open>The match record built when buy \<open>i\<close> meets sell \<open>j\<close>.\<close>

definition makeMatch :: "Env \<Rightarrow> nat \<Rightarrow> PrivateOrder \<Rightarrow> PrivateOrder \<Rightarrow> Match" where
  "makeMatch env k b s =
     \<lparr>matchId = generateMatchId env k,
      buyOrder = b,
      sellOrder = s,
      executionPrice = bigint_div (price b + price s) 2,
      executionQuantity = quantity b,
      matchTimestamp = Date_now env k\<rparr>"

text \<open>
  The outer loop over the buys, from index \<open>i\<close>. Its state is the engine (the queue
  and the log grow) and the two sets of claimed indices.
\<close>

function matchLoop ::
  "Env \<Rightarrow> PrivateOrder list \<Rightarrow> PrivateOrder list \<Rightarrow> nat \<Rightarrow>
   Engine \<times> nat set \<times> nat set \<Rightarrow> Engine \<times> nat set \<times> nat set" where
  "matchLoop env buys sells i (st, matchedBuys, matchedSells) =
     (if i < length buys then
        (if i \<in> matchedBuys then matchLoop env buys sells (i + 1) (st, matchedBuys, matchedSells)
         else
           (case findSell (buys ! i) sells matchedSells 0 of
              None \<Rightarrow> matchLoop env buys sells (i + 1) (st, matchedBuys, matchedSells)
            | Some j \<Rightarrow>
                (let m = makeMatch env (length (completedMatches st)) (buys ! i) (sells ! j)
                 in matchLoop env buys sells (i + 1)
                      (st\<lparr>matchQueue := matchQueue st @ [m],
                          completedMatches := completedMatches st @ [m]\<rparr>,
                       insert i matchedBuys, insert j matchedSells))))
      else (st, matchedBuys, matchedSells))"
  by pat_completeness auto
termination
  by (relation "measure (\<lambda>(env, buys, sells, i, s). length buys - i)") auto

declare matchLoop.simps [simp del]

text \<open>\<open>xs.filter((_, i) => !matched.has(i))\<close>.\<close>

definition removeMatched :: "'a list \<Rightarrow> nat set \<Rightarrow> 'a list" where
  "removeMatched xs matched =
     map fst (filter (\<lambda>p. snd p \<notin> matched) (zip xs [0..<length xs]))"

definition ordersOf :: "(string \<rightharpoonup> PrivateOrder list) \<Rightarrow> string \<Rightarrow> PrivateOrder list" where
  "ordersOf book a = (case book a of None \<Rightarrow> [] | Some os \<Rightarrow> os)"

definition matchOrders :: "Env \<Rightarrow> string \<Rightarrow> Engine \<Rightarrow> Engine" where
  "matchOrders env a st =
     (let buys = ordersOf (buyOrders st) a;
          sells = ordersOf (sellOrders st) a
      in if length buys = 0 \<or> length sells = 0 then st
         else
           (let buys' = Array_sort compareBuys buys;
                sells' = Array_sort compareSells sells;
                (st', matchedBuys, matchedSells) = matchLoop env buys' sells' 0 (st, {}, {})
            in st'\<lparr>buyOrders := (buyOrders st')(a \<mapsto> removeMatched buys' matchedBuys),
                   sellOrders := (sellOrders st')(a \<mapsto> removeMatched sells' matchedSells)\<rparr>))"

definition submitOrder :: "Env \<Rightarrow> PrivateOrder \<Rightarrow> Engine \<Rightarrow> Engine" where
  "submitOrder env order st =
     (let a = assetAddress order;
          st' = (if side order = Buy
                 then st\<lparr>buyOrders := (buyOrders st)(a \<mapsto> ordersOf (buyOrders st) a @ [order])\<rparr>
                 else st\<lparr>sellOrders := (sellOrders st)(a \<mapsto> ordersOf (sellOrders st) a @ [order])\<rparr>)
      in matchOrders env a st')"

text \<open>A sequence of submissions, from a given engine state.\<close>

definition submitAll :: "Env \<Rightarrow> PrivateOrder list \<Rightarrow> Engine \<Rightarrow> Engine" where
  "submitAll env orders st = foldl (\<lambda>s order. submitOrder env order s) st orders"

subsection \<open>Queries and the start of \<open>processMatches\<close>\<close>




subsection \<open>Predicates and bookkeeping used in the statements\<close>

text \<open>What the matching policy promises of one match record.\<close>

definition exact :: "Match \<Rightarrow> bool" where
  "exact m \<longleftrightarrow>
     quantity (buyOrder m) = quantity (sellOrder m) \<and>
     price (sellOrder m) \<le> price (buyOrder m) \<and>
     executionPrice m = bigint_div (price (buyOrder m) + price (sellOrder m)) 2 \<and>
     executionQuantity m = quantity (buyOrder m)"

text \<open>
  The orders that appear in an emitted match, buy sides then sell sides, and the orders
  resting on the book of one asset.
\<close>

definition matchedOrders :: "Engine \<Rightarrow> PrivateOrder list" where
  "matchedOrders st = map buyOrder (completedMatches st) @ map sellOrder (completedMatches st)"

definition bookOrders :: "Engine \<Rightarrow> string \<Rightarrow> PrivateOrder list" where
  "bookOrders st a = ordersOf (buyOrders st) a @ ordersOf (sellOrders st) a"

text \<open>
  Conservation: per asset, the resting orders together with the matched ones are the
  submitted ones, each as often as it was submitted.
\<close>

definition conserved :: "Engine \<Rightarrow> PrivateOrder list \<Rightarrow> bool" where
  "conserved st os \<longleftrightarrow>
     (\<forall>a. (\<forall>x \<in> set (bookOrders st a). assetAddress x = a) \<and>
          mset (bookOrders st a) + filter_mset (\<lambda>x. assetAddress x = a) (mset (matchedOrders st)) =
          filter_mset (\<lambda>x. assetAddress x = a) (mset os))"

text \<open>
  Within a pass, a sell is unclaimed after the matches emitted so far when the book
  holds it more often than those matches have it as their sell side. It is eligible for
  a buy when it is unclaimed, priced at most the buy's price and of the buy's quantity.
\<close>

definition unclaimed :: "PrivateOrder list \<Rightarrow> Match list \<Rightarrow> PrivateOrder \<Rightarrow> bool" where
  "unclaimed sells earlier s \<longleftrightarrow> count_list (map sellOrder earlier) s < count_list sells s"

definition eligible ::
  "PrivateOrder list \<Rightarrow> Match list \<Rightarrow> PrivateOrder \<Rightarrow> PrivateOrder \<Rightarrow> bool" where
  "eligible sells earlier b s \<longleftrightarrow>
     unclaimed sells earlier s \<and> price s \<le> price b \<and> quantity s = quantity b"

subsection \<open>Concrete orders\<close>

definition exampleEnv :: Env where
  "exampleEnv = \<lparr>generateMatchId = (\<lambda>k. ''id''), Date_now = (\<lambda>k. 0)\<rparr>"

definition exampleOrder :: "OrderSide \<Rightarrow> int \<Rightarrow> int \<Rightarrow> int \<Rightarrow> PrivateOrder" where
  "exampleOrder sd q p t =
     \<lparr>commitment = ''c'', trader = ''t'', assetAddress = ''A'', side = sd, quantity = q,
      price = p, secret = 1, nonce = 2, timestamp = t, expiry = 100,
      whitelistIndex = Index 0\<rparr>"

text \<open>Scenario 2 of the specification: Buy(100, 52) then Sell(100, 48).\<close>

definition crossBuy :: PrivateOrder where
  "crossBuy = exampleOrder Buy 100 52 1"

definition crossSell :: PrivateOrder where
  "crossSell = exampleOrder Sell 100 48 2"

definition crossMatch :: Match where
  "crossMatch = \<lparr>matchId = ''id'', buyOrder = crossBuy, sellOrder = crossSell,
                  executionPrice = 50, executionQuantity = 100, matchTimestamp = 0\<rparr>"

text \<open>Two crossing orders with negative prices.\<close>

definition negBuy :: PrivateOrder where
  "negBuy = exampleOrder Buy 1 (- 1) 1"

definition negSell :: PrivateOrder where
  "negSell = exampleOrder Sell 1 (- 2) 2"

text \<open>Scenario 4 of the specification: Sell(100, 50) at 1, Sell(100, 48) at 2, Buy(100, 55).\<close>

definition lateCheapSell :: PrivateOrder where
  "lateCheapSell = exampleOrder Sell 100 48 2"

definition earlyDearSell :: PrivateOrder where
  "earlyDearSell = exampleOrder Sell 100 50 1"

definition keenBuy :: PrivateOrder where
  "keenBuy = exampleOrder Buy 100 55 3"

text \<open>The book of scenario 4 before the pass, and the match that the pass emits.\<close>

definition priorityBook :: Engine where
  "priorityBook = \<lparr>buyOrders = [''A'' \<mapsto> [keenBuy]],
                     sellOrders = [''A'' \<mapsto> [earlyDearSell, lateCheapSell]],
                     matchQueue = [], completedMatches = []\<rparr>"

definition priorityMatch :: Match where
  "priorityMatch = \<lparr>matchId = ''id'', buyOrder = keenBuy, sellOrder = lateCheapSell,
                      executionPrice = 51, executionQuantity = 100, matchTimestamp = 0\<rparr>"

section \<open>Order submission route\<close>















section \<open>WebSocket heartbeat\<close>

text \<open>
  The server keeps the set \<open>wss.clients\<close>, each socket with its flag \<open>isAlive\<close>, and a
  subscription manager. \<open>SubscriptionManager\<close> belongs to the module \<open>websocket/handlers\<close>: its state
  is a type parameter and its \<open>removeClient\<close> a function parameter. A client is a
  socket handle; a connection brings a new handle.
\<close>

type_synonym client = nat

record 'subs WsServer =
  clients :: "(client \<times> bool) list"
  subscriptionManager :: "'subs"

datatype WsAction = Ping client | Terminate client

datatype WsEvent = Connection client | Pong client | Close client | HeartbeatTick

text \<open>The period of \<open>setInterval\<close> in \<open>startHeartbeat\<close>, in milliseconds.\<close>

definition heartbeatIntervalMs :: nat where
  "heartbeatIntervalMs = 30000"

definition setAlive :: "client \<Rightarrow> bool \<Rightarrow> (client \<times> bool) list \<Rightarrow> (client \<times> bool) list" where
  "setAlive c v cs = map (\<lambda>(d, a). if d = c then (d, v) else (d, a)) cs"

text \<open>The handlers set up for a connection: the flag starts as \<open>true\<close>; a pong sets it.\<close>

definition onConnection :: "client \<Rightarrow> 'subs WsServer \<Rightarrow> 'subs WsServer" where
  "onConnection c st = st\<lparr>clients := clients st @ [(c, True)]\<rparr>"

definition onPong :: "client \<Rightarrow> 'subs WsServer \<Rightarrow> 'subs WsServer" where
  "onPong c st = st\<lparr>clients := setAlive c True (clients st)\<rparr>"

definition onClose :: "(client \<Rightarrow> 'subs \<Rightarrow> 'subs) \<Rightarrow> client \<Rightarrow> 'subs WsServer \<Rightarrow> 'subs WsServer" where
  "onClose removeClient c st =
     st\<lparr>clients := filter (\<lambda>(d, a). d \<noteq> c) (clients st),
        subscriptionManager := removeClient c (subscriptionManager st)\<rparr>"

text \<open>
  The callback of the heartbeat for one client: a client whose flag is \<open>false\<close> is
  removed from the subscription manager and terminated; any other has its flag cleared
  and is pinged.
\<close>

definition heartbeatClient ::
  "(client \<Rightarrow> 'subs \<Rightarrow> 'subs) \<Rightarrow> client \<Rightarrow>
   'subs WsServer \<times> WsAction list \<Rightarrow> 'subs WsServer \<times> WsAction list" where
  "heartbeatClient removeClient c acc =
     (case acc of (st, out) \<Rightarrow>
        if map_of (clients st) c = Some False
        then (st\<lparr>clients := filter (\<lambda>(d, a). d \<noteq> c) (clients st),
                 subscriptionManager := removeClient c (subscriptionManager st)\<rparr>,
              out @ [Terminate c])
        else (st\<lparr>clients := setAlive c False (clients st)\<rparr>, out @ [Ping c]))"

text \<open>One firing of the interval: \<open>wss.clients.forEach\<close>.\<close>

definition heartbeat ::
  "(client \<Rightarrow> 'subs \<Rightarrow> 'subs) \<Rightarrow> 'subs WsServer \<Rightarrow> 'subs WsServer \<times> WsAction list" where
  "heartbeat removeClient st =
     fold (heartbeatClient removeClient) (map fst (clients st)) (st, [])"

fun wsStep ::
  "(client \<Rightarrow> 'subs \<Rightarrow> 'subs) \<Rightarrow> WsEvent \<Rightarrow> 'subs WsServer \<times> WsAction list \<Rightarrow>
   'subs WsServer \<times> WsAction list" where
  "wsStep rc (Connection c) (st, out) = (onConnection c st, out)"
| "wsStep rc (Pong c) (st, out) = (onPong c st, out)"
| "wsStep rc (Close c) (st, out) = (onClose rc c st, out)"
| "wsStep rc HeartbeatTick (st, out) = (case heartbeat rc st of (st', acts) \<Rightarrow> (st', out @ acts))"

definition wsRun ::
  "(client \<Rightarrow> 'subs \<Rightarrow> 'subs) \<Rightarrow> WsEvent list \<Rightarrow> 'subs WsServer \<Rightarrow> 'subs WsServer \<times> WsAction list" where
  "wsRun rc evs st = fold (wsStep rc) evs (st, [])"

definition newWsServer :: "'subs \<Rightarrow> 'subs WsServer" where
  "newWsServer subs = \<lparr>clients = [], subscriptionManager = subs\<rparr>"

text \<open>
  Modelled from the spec: \<open>removeClient\<close> of a subscription manager that keeps
  (client, channel) pairs releases every subscription of the client. Used for concrete
  runs only.
\<close>

definition dropClient :: "client \<Rightarrow> (client \<times> string) list \<Rightarrow> (client \<times> string) list" where
  "dropClient c subs = filter (\<lambda>(d, ch). d \<noteq> c) subs"


definition oneClient :: "(client \<times> string) list WsServer" where
  "oneClient = \<lparr>clients = [(7, True)], subscriptionManager = [(7, ''trader:G'')]\<rparr>"

section \<open>Properties\<close>

subsection \<open>The matcher\<close>

lemma findSell_Some:
  "findSell b sells M j = Some k \<Longrightarrow>
     j \<le> k \<and> k < length sells \<and> k \<notin> M \<and> price (sells ! k) \<le> price b \<and>
     quantity b = quantity (sells ! k)"
proof (induction b sells M j rule: findSell.induct)
  case (1 b sells M j)
  show ?case
  proof (cases "j < length sells")
    case False
    with "1.prems" show ?thesis by (simp add: findSell.simps [of b sells M j])
  next
    case True
    show ?thesis
    proof (cases "j \<in> M \<or> price b < price (sells ! j) \<or> quantity b \<noteq> quantity (sells ! j)")
      case True
      with \<open>j < length sells\<close> "1.prems"
      have "findSell b sells M (j + 1) = Some k"
        by (auto simp: findSell.simps [of b sells M j] split: if_splits)
      with True \<open>j < length sells\<close> "1.IH" have "j + 1 \<le> k \<and> k < length sells \<and> k \<notin> M \<and> price (sells ! k) \<le> price b \<and>
     quantity b = quantity (sells ! k)"
        by blast
      then show ?thesis by simp
    next
      case False
      with \<open>j < length sells\<close> "1.prems" have "k = j"
        by (auto simp: findSell.simps [of b sells M j] split: if_splits)
      with False \<open>j < length sells\<close> show ?thesis by auto
    qed
  qed
qed

lemma matchLoop_rule:
  assumes init: "I i st mB mS"
    and skip: "\<And>i st mB mS. I i st mB mS \<Longrightarrow> i < length buys \<Longrightarrow>
                 i \<in> mB \<or> findSell (buys ! i) sells mS 0 = None \<Longrightarrow> I (i + 1) st mB mS"
    and claim: "\<And>i st mB mS j. I i st mB mS \<Longrightarrow> i < length buys \<Longrightarrow> i \<notin> mB \<Longrightarrow>
                 findSell (buys ! i) sells mS 0 = Some j \<Longrightarrow>
                 I (i + 1)
                   (st\<lparr>matchQueue := matchQueue st @
                          [makeMatch env (length (completedMatches st)) (buys ! i) (sells ! j)],
                       completedMatches := completedMatches st @
                          [makeMatch env (length (completedMatches st)) (buys ! i) (sells ! j)]\<rparr>)
                   (insert i mB) (insert j mS)"
    and final: "\<And>i st mB mS. I i st mB mS \<Longrightarrow> \<not> i < length buys \<Longrightarrow> Q (st, mB, mS)"
  shows "Q (matchLoop env buys sells i (st, mB, mS))"
  using assms
proof (induction env buys sells i "(st, mB, mS)" arbitrary: st mB mS rule: matchLoop.induct)
  case (1 env buys sells i st mB mS)
  note init = "1.prems"(1) and skip = "1.prems"(2) and claim = "1.prems"(3)
    and final = "1.prems"(4)
  show ?case
  proof (cases "i < length buys")
    case False
    have "matchLoop env buys sells i (st, mB, mS) = (st, mB, mS)"
      using False by (simp add: matchLoop.simps [of env buys sells i])
    with final [OF init False] show ?thesis by simp
  next
    case True
    note lt = this
    show ?thesis
    proof (cases "i \<in> mB \<or> findSell (buys ! i) sells mS 0 = None")
      case True
      then have eq: "matchLoop env buys sells i (st, mB, mS) =
                 matchLoop env buys sells (i + 1) (st, mB, mS)"
        using lt by (auto simp: matchLoop.simps [of env buys sells i])
      have next_inv: "I (i + 1) st mB mS"
        by (rule skip [OF init lt True])
      show ?thesis
      proof (cases "i \<in> mB")
        case True
        from "1.hyps"(1) [OF lt True next_inv skip claim final] show ?thesis
          unfolding eq .
      next
        case False
        with True have none: "findSell (buys ! i) sells mS 0 = None" by simp
        from "1.hyps"(2) [OF lt False none next_inv skip claim final] show ?thesis
          unfolding eq .
      qed
    next
      case False
      then obtain j where nin: "i \<notin> mB" and some: "findSell (buys ! i) sells mS 0 = Some j"
        by auto
      let ?m = "makeMatch env (length (completedMatches st)) (buys ! i) (sells ! j)"
      let ?st = "st\<lparr>matchQueue := matchQueue st @ [?m],
                     completedMatches := completedMatches st @ [?m]\<rparr>"
      have eq: "matchLoop env buys sells i (st, mB, mS) =
                 matchLoop env buys sells (i + 1) (?st, insert i mB, insert j mS)"
        using lt nin some by (simp add: matchLoop.simps [of env buys sells i] Let_def)
      have next_inv: "I (i + 1) ?st (insert i mB) (insert j mS)"
        by (rule claim [OF init lt nin some])
      from "1.hyps"(3) [OF lt nin some refl next_inv skip claim final] show ?thesis
        unfolding eq .
    qed
  qed
qed

lemma matchLoop_exact:
  assumes "\<forall>m \<in> set (completedMatches st). exact m"
  shows "\<forall>m \<in> set (completedMatches (fst (matchLoop env buys sells i (st, mB, mS)))). exact m"
proof (rule matchLoop_rule [where I = "\<lambda>i st mB mS. \<forall>m \<in> set (completedMatches st). exact m"])
  show "\<forall>m \<in> set (completedMatches st). exact m" by (rule assms)
next
  fix i st mB mS j
  assume inv: "\<forall>m \<in> set (completedMatches st). exact m"
    and f: "findSell (buys ! i) sells mS 0 = Some j"
  from findSell_Some [OF f]
  have "exact (makeMatch env (length (completedMatches st)) (buys ! i) (sells ! j))"
    by (simp add: exact_def makeMatch_def)
  with inv show "\<forall>m \<in> set (completedMatches
        (st\<lparr>matchQueue := matchQueue st @
               [makeMatch env (length (completedMatches st)) (buys ! i) (sells ! j)],
            completedMatches := completedMatches st @
               [makeMatch env (length (completedMatches st)) (buys ! i) (sells ! j)]\<rparr>)). exact m"
    by simp
qed simp_all

lemma matchOrders_exact:
  assumes "\<forall>m \<in> set (completedMatches st). exact m"
  shows "\<forall>m \<in> set (completedMatches (matchOrders env a st)). exact m"
proof -
  have "\<forall>m \<in> set (completedMatches (fst (matchLoop env buys sells 0 (st, {}, {})))). exact m"
    for buys sells
    using assms by (rule matchLoop_exact)
  then show ?thesis
    using assms by (simp add: matchOrders_def Let_def split_beta)
qed

lemma submitOrder_exact:
  assumes "\<forall>m \<in> set (completedMatches st). exact m"
  shows "\<forall>m \<in> set (completedMatches (submitOrder env order st)). exact m"
  unfolding submitOrder_def Let_def
  by (rule matchOrders_exact) (use assms in simp)

lemma submitAll_exact:
  assumes "\<forall>m \<in> set (completedMatches st). exact m"
  shows "\<forall>m \<in> set (completedMatches (submitAll env orders st)). exact m"
  using assms
proof (induction orders arbitrary: st)
  case Nil
  then show ?case by (simp add: submitAll_def)
next
  case (Cons x xs)
  from Cons.IH [OF submitOrder_exact [OF Cons.prems, of env x]]
  show ?case by (simp add: submitAll_def)
qed

lemma bigint_div_nonneg: "0 \<le> a \<Longrightarrow> bigint_div a 2 = a div 2"
  by (cases "a = 0") (simp_all add: bigint_div_def)

lemma mset_insertSorted: "mset (insertSorted cmp x ys) = add_mset x (mset ys)"
  by (induction ys) simp_all

lemma mset_Array_sort: "mset (Array_sort cmp xs) = mset xs"
  by (induction xs) (simp_all add: Array_sort_def mset_insertSorted)

lemma set_Array_sort: "set (Array_sort cmp xs) = set xs"
  using mset_Array_sort [of cmp xs] by (metis set_mset_mset)

lemma length_Array_sort: "length (Array_sort cmp xs) = length xs"
  using mset_Array_sort [of cmp xs] by (metis size_mset)

lemma mset_nths_insert:
  "j < length xs \<Longrightarrow> j \<notin> A \<Longrightarrow> mset (nths xs (insert j A)) = add_mset (xs ! j) (mset (nths xs A))"
proof (induction xs rule: rev_induct)
  case Nil
  then show ?case by simp
next
  case (snoc x xs)
  show ?case
  proof (cases "j = length xs")
    case True
    have "nths xs (insert j A) = nths xs A"
      unfolding nths_def using True
      by (intro arg_cong [where f = "map fst"] filter_cong) (auto simp: set_zip)
    with True snoc.prems show ?thesis by (simp add: nths_append)
  next
    case False
    with snoc.prems have "j < length xs" by simp
    with snoc.IH snoc.prems False show ?thesis
      by (simp add: nths_append nth_append)
  qed
qed

lemma removeMatched_nths: "removeMatched xs M = nths xs (- M)"
  by (simp add: removeMatched_def nths_def)

lemma mset_map_filter_partition:
  "mset (map f (filter (\<lambda>p. \<not> P p) zs)) + mset (map f (filter P zs)) = mset (map f zs)"
  by (induction zs) simp_all

lemma mset_nths_compl: "mset (nths xs (- M)) + mset (nths xs M) = mset xs"
proof -
  let ?z = "zip xs [0..<length xs]"
  have fst_z: "map fst ?z = xs" by simp
  have "mset (nths xs (- M)) + mset (nths xs M) =
        mset (map fst (filter (\<lambda>p. \<not> snd p \<in> M) ?z)) + mset (map fst (filter (\<lambda>p. snd p \<in> M) ?z))"
    by (simp add: nths_def)
  also have "\<dots> = mset (map fst ?z)"
    by (rule mset_map_filter_partition)
  also have "\<dots> = mset xs" by (simp only: fst_z)
  finally show ?thesis .
qed

lemma matchLoop_claims:
  assumes "matchLoop env buys sells 0 (st, {}, {}) = (st', mB, mS)"
  shows "buyOrders st' = buyOrders st \<and> sellOrders st' = sellOrders st \<and>
         (\<exists>new. completedMatches st' = completedMatches st @ new \<and>
                mset (map buyOrder new) = mset (nths buys mB) \<and>
                mset (map sellOrder new) = mset (nths sells mS))"
proof -
  let ?I = "\<lambda>st1 mB mS. buyOrders st1 = buyOrders st \<and> sellOrders st1 = sellOrders st \<and>
         (\<exists>new. completedMatches st1 = completedMatches st @ new \<and>
                mset (map buyOrder new) = mset (nths buys mB) \<and>
                mset (map sellOrder new) = mset (nths sells mS))"
  have "(\<lambda>(s, b, c). ?I s b c) (matchLoop env buys sells 0 (st, {}, {}))"
  proof (rule matchLoop_rule [where I = "\<lambda>i. ?I"])
    show "?I st {} {}" by simp
  next
    fix i st1 mB mS j
    assume inv: "?I st1 mB mS" and lt: "i < length buys" and nin: "i \<notin> mB"
      and f: "findSell (buys ! i) sells mS 0 = Some j"
    let ?m = "makeMatch env (length (completedMatches st1)) (buys ! i) (sells ! j)"
    from inv obtain new where new: "completedMatches st1 = completedMatches st @ new"
      "mset (map buyOrder new) = mset (nths buys mB)"
      "mset (map sellOrder new) = mset (nths sells mS)"
      by blast
    from findSell_Some [OF f] have j: "j < length sells" "j \<notin> mS" by simp_all
    have "completedMatches st1 @ [?m] = completedMatches st @ (new @ [?m])"
      using new(1) by simp
    moreover have "mset (map buyOrder (new @ [?m])) = mset (nths buys (insert i mB))"
      using new(2) by (simp add: mset_nths_insert [OF lt nin] makeMatch_def)
    moreover have "mset (map sellOrder (new @ [?m])) = mset (nths sells (insert j mS))"
      using new(3) by (simp add: mset_nths_insert [OF j] makeMatch_def)
    ultimately show "?I (st1\<lparr>matchQueue := matchQueue st1 @ [?m],
                         completedMatches := completedMatches st1 @ [?m]\<rparr>)
                      (insert i mB) (insert j mS)"
      using inv by (auto simp del: mset_map mset_append)
  qed simp_all
  with assms show ?thesis by simp
qed

lemma filter_mset_all: "(\<forall>x\<in>#M. P x) \<Longrightarrow> filter_mset P M = M"
  by (induction M) auto

lemma filter_mset_none: "(\<forall>x\<in>#M. \<not> P x) \<Longrightarrow> filter_mset P M = {#}"
  by (induction M) auto

lemma matchOrders_early:
  "length (ordersOf (buyOrders st) a) = 0 \<or> length (ordersOf (sellOrders st) a) = 0 \<Longrightarrow>
   matchOrders env a st = st"
  by (simp only: matchOrders_def Let_def if_True)

lemma matchOrders_pass:
  assumes "\<not> (length (ordersOf (buyOrders st) a) = 0 \<or> length (ordersOf (sellOrders st) a) = 0)"
    and "matchLoop env (Array_sort compareBuys (ordersOf (buyOrders st) a))
           (Array_sort compareSells (ordersOf (sellOrders st) a)) 0 (st, {}, {}) = (st', mB, mS)"
  shows "matchOrders env a st =
         st'\<lparr>buyOrders := (buyOrders st')(a \<mapsto>
                 removeMatched (Array_sort compareBuys (ordersOf (buyOrders st) a)) mB),
             sellOrders := (sellOrders st')(a \<mapsto>
                 removeMatched (Array_sort compareSells (ordersOf (sellOrders st) a)) mS)\<rparr>"
  using assms by (simp only: matchOrders_def Let_def if_False prod.case)


lemma matchOrders_conserved:
  assumes inv: "conserved st os"
  shows "conserved (matchOrders env a st) os"
proof (cases "length (ordersOf (buyOrders st) a) = 0 \<or> length (ordersOf (sellOrders st) a) = 0")
  case True
  with inv show ?thesis by (simp only: matchOrders_early)
next
  case False
  define buys where "buys = Array_sort compareBuys (ordersOf (buyOrders st) a)"
  define sells where "sells = Array_sort compareSells (ordersOf (sellOrders st) a)"
  obtain st' mB mS where run: "matchLoop env buys sells 0 (st, {}, {}) = (st', mB, mS)"
    using prod_cases3 by blast
  define st'' where "st'' = st'\<lparr>buyOrders := (buyOrders st')(a \<mapsto> removeMatched buys mB),
                   sellOrders := (sellOrders st')(a \<mapsto> removeMatched sells mS)\<rparr>"
  have res: "matchOrders env a st = st''"
    unfolding st''_def buys_def sells_def
    by (rule matchOrders_pass [OF False run [unfolded buys_def sells_def]])
  from matchLoop_claims [OF run] obtain new where
    books: "buyOrders st' = buyOrders st" "sellOrders st' = sellOrders st"
    and new: "completedMatches st' = completedMatches st @ new"
      "mset (map buyOrder new) = mset (nths buys mB)"
      "mset (map sellOrder new) = mset (nths sells mS)"
    by blast
  from inv have inv_a: "\<forall>x \<in> set (bookOrders st a). assetAddress x = a"
    by (simp add: conserved_def)
  have asset_buys: "\<forall>x \<in> set buys. assetAddress x = a"
    using inv_a by (simp add: buys_def set_Array_sort bookOrders_def)
  have asset_sells: "\<forall>x \<in> set sells. assetAddress x = a"
    using inv_a by (simp add: sells_def set_Array_sort bookOrders_def)
  have mset_buys: "mset buys = mset (ordersOf (buyOrders st) a)"
    by (simp add: buys_def mset_Array_sort)
  have mset_sells: "mset sells = mset (ordersOf (sellOrders st) a)"
    by (simp add: sells_def mset_Array_sort)
  define claimed where "claimed = mset (nths buys mB) + mset (nths sells mS)"
  have "mset (matchedOrders st'') =
          mset (map buyOrder (completedMatches st)) + mset (map buyOrder new) +
          (mset (map sellOrder (completedMatches st)) + mset (map sellOrder new))"
    by (simp add: matchedOrders_def st''_def new(1))
  then have matched: "mset (matchedOrders st'') = mset (matchedOrders st) + claimed"
    by (simp only: new(2,3) claimed_def matchedOrders_def mset_append ac_simps)
  have claimed_asset: "\<forall>x \<in># claimed. assetAddress x = a"
    using asset_buys asset_sells by (auto simp: claimed_def dest: in_set_nthsD)
  have "(\<forall>x \<in> set (bookOrders st'' b). assetAddress x = b) \<and>
          mset (bookOrders st'' b) + filter_mset (\<lambda>x. assetAddress x = b) (mset (matchedOrders st'')) =
          filter_mset (\<lambda>x. assetAddress x = b) (mset os)" for b
  proof (cases "b = a")
    case True
    have book: "bookOrders st'' a = removeMatched buys mB @ removeMatched sells mS"
      by (simp add: bookOrders_def st''_def ordersOf_def)
    have keep: "filter_mset (\<lambda>x. assetAddress x = a) claimed = claimed"
      by (rule filter_mset_all [OF claimed_asset])
    have split: "mset (bookOrders st'' a) + claimed = mset (bookOrders st a)"
    proof -
      have "mset (bookOrders st'' a) + claimed =
            (mset (nths buys (- mB)) + mset (nths buys mB)) +
            (mset (nths sells (- mS)) + mset (nths sells mS))"
        by (simp add: book removeMatched_nths claimed_def)
      also have "\<dots> = mset buys + mset sells"
        by (simp only: mset_nths_compl)
      finally show ?thesis by (simp add: mset_buys mset_sells bookOrders_def)
    qed
    have "mset (bookOrders st'' a) + filter_mset (\<lambda>x. assetAddress x = a) (mset (matchedOrders st''))
          = (mset (bookOrders st'' a) + claimed) +
            filter_mset (\<lambda>x. assetAddress x = a) (mset (matchedOrders st))"
      by (simp add: matched keep)
    also have "\<dots> = filter_mset (\<lambda>x. assetAddress x = a) (mset os)"
      using inv by (simp only: split) (simp add: conserved_def)
    finally have eq: "mset (bookOrders st'' a) +
        filter_mset (\<lambda>x. assetAddress x = a) (mset (matchedOrders st'')) =
        filter_mset (\<lambda>x. assetAddress x = a) (mset os)" .
    have "\<forall>x \<in> set (bookOrders st'' a). assetAddress x = a"
      using asset_buys asset_sells
      by (auto simp: book removeMatched_nths dest: in_set_nthsD)
    with eq True show ?thesis by simp
  next
    case False
    have book: "bookOrders st'' b = bookOrders st b"
      using False by (simp add: bookOrders_def st''_def ordersOf_def books)
    have drop: "filter_mset (\<lambda>x. assetAddress x = b) claimed = {#}"
      using claimed_asset False by (intro filter_mset_none) auto
    have "filter_mset (\<lambda>x. assetAddress x = b) (mset (matchedOrders st'')) =
          filter_mset (\<lambda>x. assetAddress x = b) (mset (matchedOrders st))"
      by (simp add: matched drop)
    with inv show ?thesis by (simp add: book conserved_def)
  qed
  then show ?thesis unfolding res conserved_def by blast
qed

lemma submitOrder_conserved:
  assumes inv: "conserved st os"
  shows "conserved (submitOrder env x st) (os @ [x])"
proof -
  define st' where "st' = (if side x = Buy
      then st\<lparr>buyOrders := (buyOrders st)(assetAddress x \<mapsto>
                 ordersOf (buyOrders st) (assetAddress x) @ [x])\<rparr>
      else st\<lparr>sellOrders := (sellOrders st)(assetAddress x \<mapsto>
                 ordersOf (sellOrders st) (assetAddress x) @ [x])\<rparr>)"
  have matched: "matchedOrders st' = matchedOrders st"
    by (simp add: st'_def matchedOrders_def)
  have book_a: "mset (bookOrders st' (assetAddress x)) =
                add_mset x (mset (bookOrders st (assetAddress x)))"
    by (simp add: st'_def bookOrders_def ordersOf_def)
  have book_b: "b \<noteq> assetAddress x \<Longrightarrow> bookOrders st' b = bookOrders st b" for b
    by (simp add: st'_def bookOrders_def ordersOf_def)
  have "conserved st' (os @ [x])"
    unfolding conserved_def
  proof (intro allI)
    fix b
    from inv have ib: "(\<forall>y \<in> set (bookOrders st b). assetAddress y = b)"
      "mset (bookOrders st b) + filter_mset (\<lambda>y. assetAddress y = b) (mset (matchedOrders st)) =
          filter_mset (\<lambda>y. assetAddress y = b) (mset os)"
      by (simp_all add: conserved_def)
    show "(\<forall>y \<in> set (bookOrders st' b). assetAddress y = b) \<and>
          mset (bookOrders st' b) + filter_mset (\<lambda>y. assetAddress y = b) (mset (matchedOrders st')) =
          filter_mset (\<lambda>y. assetAddress y = b) (mset (os @ [x]))"
    proof (cases "b = assetAddress x")
      case True
      have "set (bookOrders st' b) = insert x (set (bookOrders st b))"
        using book_a True by (metis set_mset_add_mset_insert set_mset_mset)
      with ib True show ?thesis by (simp add: matched book_a)
    next
      case False
      with ib show ?thesis by (simp add: matched book_b)
    qed
  qed
  then show ?thesis
    unfolding submitOrder_def Let_def st'_def by (rule matchOrders_conserved)
qed

lemma submitAll_conserved:
  "conserved st os \<Longrightarrow> conserved (submitAll env xs st) (os @ xs)"
proof (induction xs arbitrary: st os)
  case Nil
  then show ?case by (simp add: submitAll_def)
next
  case (Cons x xs)
  from Cons.IH [OF submitOrder_conserved [OF Cons.prems, of env x]]
  show ?case by (simp add: submitAll_def)
qed

lemma conserved_new: "conserved newEngine []"
  by (simp add: conserved_def newEngine_def bookOrders_def ordersOf_def matchedOrders_def)

lemma compareSells_le:
  "compareSells a b \<le> 0 \<longleftrightarrow>
     price a < price b \<or> (price a = price b \<and> timestamp a \<le> timestamp b)"
  by (auto simp: compareSells_def)

lemma set_insertSorted: "set (insertSorted cmp x ys) = insert x (set ys)"
  by (induction ys) auto

lemma sorted_insertSorted_sells:
  "sorted_wrt (\<lambda>a b. compareSells a b \<le> 0) ys \<Longrightarrow>
   sorted_wrt (\<lambda>a b. compareSells a b \<le> 0) (insertSorted compareSells x ys)"
proof (induction ys)
  case Nil
  then show ?case by simp
next
  case (Cons y ys)
  show ?case
  proof (cases "compareSells x y \<le> 0")
    case True
    have "compareSells x z \<le> 0" if "z \<in> set ys" for z
    proof -
      from Cons.prems that have "compareSells y z \<le> 0" by simp
      with True show ?thesis unfolding compareSells_le by linarith
    qed
    with True Cons.prems show ?thesis by simp
  next
    case False
    then have "compareSells y x \<le> 0" unfolding compareSells_le by linarith
    with False Cons show ?thesis by (auto simp: set_insertSorted)
  qed
qed

lemma sorted_Array_sort_sells:
  "sorted_wrt (\<lambda>a b. compareSells a b \<le> 0) (Array_sort compareSells xs)"
  by (induction xs) (simp_all add: Array_sort_def sorted_insertSorted_sells)

lemma findSell_first:
  "findSell b sells M j = Some k \<Longrightarrow> j \<le> j' \<Longrightarrow> j' < k \<Longrightarrow>
     j' \<in> M \<or> price b < price (sells ! j') \<or> quantity b \<noteq> quantity (sells ! j')"
proof (induction b sells M j rule: findSell.induct)
  case (1 b sells M j)
  from findSell_Some [OF "1.prems"(1)] "1.prems"(2,3) have lt: "j < length sells" by simp
  show ?case
  proof (cases "j \<in> M \<or> price b < price (sells ! j) \<or> quantity b \<noteq> quantity (sells ! j)")
    case True
    with lt "1.prems"(1) have nxt: "findSell b sells M (j + 1) = Some k"
      by (auto simp: findSell.simps [of b sells M j] split: if_splits)
    show ?thesis
    proof (cases "j' = j")
      case True
      with \<open>j \<in> M \<or> price b < price (sells ! j) \<or> quantity b \<noteq> quantity (sells ! j)\<close>
      show ?thesis by simp
    next
      case False
      with "1.prems"(2) have le: "j + 1 \<le> j'" by simp
      from True consider "j \<in> M" | "j \<notin> M" "price b < price (sells ! j)"
        | "j \<notin> M" "\<not> price b < price (sells ! j)" "quantity b \<noteq> quantity (sells ! j)"
        by blast
      then show ?thesis
      proof cases
        case 1
        from "1.IH"(1) [OF lt 1 nxt le "1.prems"(3)] show ?thesis .
      next
        case 2
        from "1.IH"(2) [OF lt 2 nxt le "1.prems"(3)] show ?thesis .
      next
        case 3
        from "1.IH"(3) [OF lt 3 nxt le "1.prems"(3)] show ?thesis .
      qed
    qed
  next
    case False
    with lt "1.prems"(1) have "k = j"
      by (auto simp: findSell.simps [of b sells M j] split: if_splits)
    with "1.prems"(2,3) show ?thesis by simp
  qed
qed

text \<open>
  C1 (amended). Every match emitted over any sequence of submissions to a new engine
  pairs a buy and a sell of equal quantity with the buy price at least the sell price;
  its execution quantity is the buy order's quantity; its execution price is the
  \<open>bigint\<close> quotient of the sum of the two prices by 2, rounded towards zero, which is
  the floor quotient whenever the sum is not negative.
\<close>

theorem matches_exact:
  assumes "m \<in> set (completedMatches (submitAll env orders newEngine))"
  shows "quantity (buyOrder m) = quantity (sellOrder m) \<and>
         price (sellOrder m) \<le> price (buyOrder m) \<and>
         executionPrice m = bigint_div (price (buyOrder m) + price (sellOrder m)) 2 \<and>
         (0 \<le> price (buyOrder m) + price (sellOrder m) \<longrightarrow>
            executionPrice m = (price (buyOrder m) + price (sellOrder m)) div 2) \<and>
         executionQuantity m = quantity (buyOrder m)"
proof -
  have "\<forall>m \<in> set (completedMatches (submitAll env orders newEngine)). exact m"
    by (rule submitAll_exact) (simp add: newEngine_def)
  with assms have "exact m" by blast
  then show ?thesis by (auto simp: exact_def bigint_div_nonneg)
qed


theorem matches_exact_witness:
  "crossMatch \<in> set (completedMatches (submitAll exampleEnv [crossBuy, crossSell] newEngine)) \<and>
   quantity (buyOrder crossMatch) = quantity (sellOrder crossMatch) \<and>
   price (sellOrder crossMatch) \<le> price (buyOrder crossMatch) \<and>
   executionPrice crossMatch = (price (buyOrder crossMatch) + price (sellOrder crossMatch)) div 2 \<and>
   executionQuantity crossMatch = quantity (buyOrder crossMatch)"
proof -
  have h: "crossMatch \<in> set (completedMatches (submitAll exampleEnv [crossBuy, crossSell] newEngine))"
    by code_simp
  have "0 \<le> price (buyOrder crossMatch) + price (sellOrder crossMatch)"
    by code_simp
  with matches_exact [OF h] h show ?thesis by blast
qed

text \<open>
  C1 as stated fails for the floor quotient: a buy at price \<open>-1\<close> and a sell at price
  \<open>-2\<close> of equal quantity are matched at execution price \<open>-1\<close>, while the floor of
  \<open>-3 / 2\<close> is \<open>-2\<close>.
\<close>

theorem midpoint_floor_counterexample:
  "completedMatches (submitAll exampleEnv [negBuy, negSell] newEngine) =
     [\<lparr>matchId = ''id'', buyOrder = negBuy, sellOrder = negSell, executionPrice = - 1,
       executionQuantity = 1, matchTimestamp = 0\<rparr>] \<and>
   (price negBuy + price negSell) div 2 = - 2"
  by code_simp

text \<open>
  C2. Over any sequence of submissions to a new engine, per asset the orders resting on
  the book together with the orders of the emitted matches are exactly the submitted
  orders, each as often as it was submitted: a claimed order has left the book. Hence,
  when the submitted orders are pairwise different, no order occurs twice among the buy
  and sell sides of all emitted matches, and no matched order is still on a book.
\<close>

theorem no_double_spend:
  "(\<forall>a. mset (bookOrders (submitAll env os newEngine) a) +
         filter_mset (\<lambda>x. assetAddress x = a) (mset (matchedOrders (submitAll env os newEngine))) =
         filter_mset (\<lambda>x. assetAddress x = a) (mset os)) \<and>
   (distinct os \<longrightarrow>
      distinct (matchedOrders (submitAll env os newEngine)) \<and>
      (\<forall>a. set (bookOrders (submitAll env os newEngine) a) \<inter>
           set (matchedOrders (submitAll env os newEngine)) = {}))"
proof -
  define st where "st = submitAll env os newEngine"
  have inv: "conserved st os"
    using submitAll_conserved [OF conserved_new, of env os] by (simp add: st_def)
  have cons: "mset (bookOrders st a) + filter_mset (\<lambda>x. assetAddress x = a) (mset (matchedOrders st)) =
         filter_mset (\<lambda>x. assetAddress x = a) (mset os)" for a
    using inv by (simp add: conserved_def)
  have asset: "assetAddress x = a" if "x \<in> set (bookOrders st a)" for x a
    using inv that by (simp add: conserved_def)
  have cnt: "count (mset (bookOrders st (assetAddress x))) x + count (mset (matchedOrders st)) x =
             count (mset os) x" for x
    using arg_cong [OF cons [of "assetAddress x"], of "\<lambda>M. count M x"] by simp
  have "distinct (matchedOrders st) \<and> (\<forall>a. set (bookOrders st a) \<inter> set (matchedOrders st) = {})"
    if d: "distinct os"
  proof -
    have le1: "count (mset os) x \<le> 1" for x
      using d by (simp add: distinct_count_atmost_1)
    have m1: "count (mset (matchedOrders st)) x \<le> 1" for x
      using cnt [of x] le1 [of x] by linarith
    have dm: "distinct (matchedOrders st)"
      unfolding distinct_count_atmost_1
    proof (intro allI)
      fix x
      show "count (mset (matchedOrders st)) x = (if x \<in> set (matchedOrders st) then 1 else 0)"
      proof (cases "x \<in> set (matchedOrders st)")
        case True
        then have "count (mset (matchedOrders st)) x \<ge> 1"
          by (metis count_greater_eq_one_iff set_mset_mset)
        with m1 [of x] have "count (mset (matchedOrders st)) x = 1" by linarith
        with True show ?thesis by simp
      next
        case False
        then show ?thesis by (simp add: count_mset_0_iff)
      qed
    qed
    have disj: "set (bookOrders st a) \<inter> set (matchedOrders st) = {}" for a
    proof (rule ccontr)
      assume "set (bookOrders st a) \<inter> set (matchedOrders st) \<noteq> {}"
      then obtain x where x: "x \<in> set (bookOrders st a)" "x \<in> set (matchedOrders st)" by blast
      from asset [OF x(1)] x(1) have "count (mset (bookOrders st (assetAddress x))) x \<ge> 1"
        by (metis count_greater_eq_one_iff set_mset_mset)
      moreover from x(2) have "count (mset (matchedOrders st)) x \<ge> 1"
        by (metis count_greater_eq_one_iff set_mset_mset)
      ultimately show False using cnt [of x] le1 [of x] by linarith
    qed
    from dm disj show ?thesis by blast
  qed
  with cons show ?thesis unfolding st_def by blast
qed


theorem no_double_spend_witness:
  "distinct [crossBuy, crossSell] \<and>
   distinct (matchedOrders (submitAll exampleEnv [crossBuy, crossSell] newEngine))"
proof -
  have d: "distinct [crossBuy, crossSell]"
    by (simp add: crossBuy_def crossSell_def exampleOrder_def)
  with no_double_spend [of exampleEnv "[crossBuy, crossSell]"] show ?thesis by blast
qed

lemma count_nths_less:
  assumes "j < length xs" "j \<notin> M"
  shows "count (mset (nths xs M)) (xs ! j) < count (mset xs) (xs ! j)"
proof -
  have "xs ! j \<in> set (nths xs (- M))"
    using assms by (auto simp: set_nths)
  then have c: "count (mset (nths xs (- M))) (xs ! j) \<noteq> 0"
    by (simp add: count_eq_zero_iff)
  have "count (mset (nths xs (- M))) (xs ! j) + count (mset (nths xs M)) (xs ! j) =
        count (mset xs) (xs ! j)"
    using arg_cong [OF mset_nths_compl [of xs M], of "\<lambda>A. count A (xs ! j)"] by simp
  with c show ?thesis by linarith
qed

lemma unclaimed_index:
  assumes "count (mset (nths xs M)) s < count (mset xs) s"
  shows "\<exists>j. j < length xs \<and> j \<notin> M \<and> xs ! j = s"
proof -
  have "count (mset (nths xs (- M))) s + count (mset (nths xs M)) s = count (mset xs) s"
    using arg_cong [OF mset_nths_compl [of xs M], of "\<lambda>A. count A s"] by simp
  with assms have "count (mset (nths xs (- M))) s \<noteq> 0" by linarith
  then have "s \<in> set (nths xs (- M))"
    by (simp add: count_eq_zero_iff)
  then show ?thesis by (auto simp: set_nths)
qed

lemma findSell_minimal:
  assumes sorted: "sells = Array_sort compareSells book"
    and found: "findSell b sells claimed 0 = Some k"
    and j: "j < length sells" "j \<notin> claimed"
      "price (sells ! j) \<le> price b" "quantity (sells ! j) = quantity b"
  shows "price (sells ! k) < price (sells ! j) \<or>
         (price (sells ! k) = price (sells ! j) \<and> timestamp (sells ! k) \<le> timestamp (sells ! j))"
proof -
  have "k \<le> j"
  proof (rule ccontr)
    assume "\<not> k \<le> j"
    then have "j < k" by simp
    from findSell_first [OF found _ this] j show False by auto
  qed
  have "compareSells (sells ! k) (sells ! j) \<le> 0"
  proof (cases "k = j")
    case True
    then show ?thesis by (simp add: compareSells_def)
  next
    case False
    with \<open>k \<le> j\<close> have "k < j" by simp
    with sorted_Array_sort_sells [of book] j(1) show ?thesis
      unfolding sorted [symmetric] by (simp add: sorted_wrt_iff_nth_less)
  qed
  then show ?thesis unfolding compareSells_le .
qed

lemma matchLoop_priority:
  assumes sells: "sells = Array_sort compareSells book"
    and run: "matchLoop env buys sells 0 (st, {}, {}) = (st', mB, mS)"
  shows "\<exists>new. completedMatches st' = completedMatches st @ new \<and>
               matchQueue st' = matchQueue st @ new \<and>
               (\<forall>earlier m later. new = earlier @ m # later \<longrightarrow>
                  buyOrder m \<in> set buys \<and>
                  eligible book earlier (buyOrder m) (sellOrder m) \<and>
                  (\<forall>s. eligible book earlier (buyOrder m) s \<longrightarrow>
                     price (sellOrder m) < price s \<or>
                     (price (sellOrder m) = price s \<and>
                      timestamp (sellOrder m) \<le> timestamp s)))"
proof -
  define best where "best = (\<lambda>earlier (m :: Match).
      buyOrder m \<in> set buys \<and>
      eligible book earlier (buyOrder m) (sellOrder m) \<and>
      (\<forall>s. eligible book earlier (buyOrder m) s \<longrightarrow>
         price (sellOrder m) < price s \<or>
         (price (sellOrder m) = price s \<and> timestamp (sellOrder m) \<le> timestamp s)))"
  define I where "I = (\<lambda>(st1 :: Engine) (mS :: nat set). \<exists>new.
      completedMatches st1 = completedMatches st @ new \<and>
      matchQueue st1 = matchQueue st @ new \<and>
      mset (map sellOrder new) = mset (nths sells mS) \<and>
      (\<forall>earlier m later. new = earlier @ m # later \<longrightarrow> best earlier m))"
  have ms: "mset sells = mset book" by (simp add: sells mset_Array_sort)
  have "(\<lambda>(s, b, c). I s c) (matchLoop env buys sells 0 (st, {}, {}))"
  proof (rule matchLoop_rule [where I = "\<lambda>i s b c. I s c"])
    show "I st {}" by (simp add: I_def)
  next
    fix i st1 mB mS j
    assume inv: "I st1 mS" and lt: "i < length buys" and nin: "i \<notin> mB"
      and f: "findSell (buys ! i) sells mS 0 = Some j"
    let ?m = "makeMatch env (length (completedMatches st1)) (buys ! i) (sells ! j)"
    from inv obtain new where new: "completedMatches st1 = completedMatches st @ new"
      "matchQueue st1 = matchQueue st @ new"
      "mset (map sellOrder new) = mset (nths sells mS)"
      "\<And>earlier m later. new = earlier @ m # later \<Longrightarrow> best earlier m"
      unfolding I_def by blast
    from findSell_Some [OF f] have j: "j < length sells" "j \<notin> mS"
      "price (sells ! j) \<le> price (buys ! i)" "quantity (buys ! i) = quantity (sells ! j)"
      by simp_all
    have cnt: "count_list (map sellOrder new) x = count (mset (nths sells mS)) x" for x
      using arg_cong [OF new(3), of "\<lambda>A. count A x"] by (simp only: count_mset)
    have cntb: "count_list book x = count (mset sells) x" for x
      by (simp only: ms count_mset)
    have un_iff: "unclaimed book new x \<longleftrightarrow> count (mset (nths sells mS)) x < count (mset sells) x" for x
      by (simp only: unclaimed_def cnt cntb)
    have b1: "buyOrder ?m \<in> set buys" using lt by (simp add: makeMatch_def)
    have b2: "eligible book new (buyOrder ?m) (sellOrder ?m)"
      using j count_nths_less [OF j(1,2)]
      by (simp add: eligible_def un_iff makeMatch_def)
    have b3: "price (sellOrder ?m) < price s \<or>
         (price (sellOrder ?m) = price s \<and> timestamp (sellOrder ?m) \<le> timestamp s)"
      if e: "eligible book new (buyOrder ?m) s" for s
    proof -
      from e have u: "count (mset (nths sells mS)) s < count (mset sells) s"
        and ps: "price s \<le> price (buys ! i)" and qs: "quantity s = quantity (buys ! i)"
        by (simp_all add: eligible_def un_iff makeMatch_def)
      from unclaimed_index [OF u] obtain j' where j': "j' < length sells" "j' \<notin> mS" "sells ! j' = s"
        by blast
      from findSell_minimal [OF sells f j'(1,2)] ps qs j'(3)
      show ?thesis by (simp add: makeMatch_def)
    qed
    have bm: "best new ?m" unfolding best_def using b1 b2 b3 by blast
    have all: "best earlier m" if sp: "new @ [?m] = earlier @ m # later" for earlier m later
    proof (cases later rule: rev_cases)
      case Nil
      with sp have "earlier = new" "m = ?m" by simp_all
      with bm show ?thesis by simp
    next
      case (snoc ls l)
      with sp have "new = earlier @ m # ls" by simp
      then show ?thesis by (rule new(4))
    qed
    have "completedMatches st1 @ [?m] = completedMatches st @ (new @ [?m])"
      using new(1) by simp
    moreover have "matchQueue st1 @ [?m] = matchQueue st @ (new @ [?m])"
      using new(2) by simp
    moreover have "mset (map sellOrder (new @ [?m])) = mset (nths sells (insert j mS))"
      using new(3) by (simp add: mset_nths_insert [OF j(1,2)] makeMatch_def)
    ultimately show "I (st1\<lparr>matchQueue := matchQueue st1 @ [?m],
                         completedMatches := completedMatches st1 @ [?m]\<rparr>) (insert j mS)"
      unfolding I_def using all by (intro exI [of _ "new @ [?m]"]) simp
  qed simp_all
  with run have "I st' mS" by simp
  then show ?thesis unfolding I_def best_def by blast
qed

text \<open>
  C3. A matching pass (\<open>matchOrders\<close> on any engine state and asset) appends its
  matches to the log and to the queue in the order in which it claims them. For every
  match among them, with the matches emitted earlier in the pass before it: its buy is a
  buy of the book; its sell is eligible for that buy (on the book and not claimed
  earlier in the pass, priced at most the buy's price, of the buy's quantity); and
  compared with any eligible sell its price is lower, or equal with a timestamp that is
  not later.
\<close>

theorem claimed_sell_priority:
  "\<exists>new. completedMatches (matchOrders env a st) = completedMatches st @ new \<and>
         matchQueue (matchOrders env a st) = matchQueue st @ new \<and>
         (\<forall>earlier m later. new = earlier @ m # later \<longrightarrow>
            buyOrder m \<in> set (ordersOf (buyOrders st) a) \<and>
            eligible (ordersOf (sellOrders st) a) earlier (buyOrder m) (sellOrder m) \<and>
            (\<forall>s. eligible (ordersOf (sellOrders st) a) earlier (buyOrder m) s \<longrightarrow>
               price (sellOrder m) < price s \<or>
               (price (sellOrder m) = price s \<and>
                timestamp (sellOrder m) \<le> timestamp s)))"
proof (cases "length (ordersOf (buyOrders st) a) = 0 \<or> length (ordersOf (sellOrders st) a) = 0")
  case True
  then have "matchOrders env a st = st" by (rule matchOrders_early)
  then show ?thesis by simp
next
  case False
  define buys where "buys = Array_sort compareBuys (ordersOf (buyOrders st) a)"
  define sells where "sells = Array_sort compareSells (ordersOf (sellOrders st) a)"
  obtain st' mB mS where run: "matchLoop env buys sells 0 (st, {}, {}) = (st', mB, mS)"
    using prod_cases3 by blast
  have res: "matchOrders env a st =
      st'\<lparr>buyOrders := (buyOrders st')(a \<mapsto> removeMatched buys mB),
          sellOrders := (sellOrders st')(a \<mapsto> removeMatched sells mS)\<rparr>"
    unfolding buys_def sells_def
    by (rule matchOrders_pass [OF False run [unfolded buys_def sells_def]])
  from matchLoop_priority [OF sells_def run]
  show ?thesis unfolding res by (simp add: buys_def set_Array_sort)
qed

theorem claimed_sell_priority_witness:
  "completedMatches (matchOrders exampleEnv ''A'' priorityBook) =
     completedMatches priorityBook @ [] @ priorityMatch # [] \<and>
   buyOrder priorityMatch = keenBuy \<and> sellOrder priorityMatch = lateCheapSell \<and>
   eligible (ordersOf (sellOrders priorityBook) ''A'') [] keenBuy earlyDearSell \<and>
   eligible (ordersOf (sellOrders priorityBook) ''A'') [] keenBuy lateCheapSell \<and>
   price lateCheapSell < price earlyDearSell"
proof -
  have run: "completedMatches (matchOrders exampleEnv ''A'' priorityBook) =
             completedMatches priorityBook @ [] @ priorityMatch # []"
    by code_simp
  have e: "eligible (ordersOf (sellOrders priorityBook) ''A'') [] keenBuy earlyDearSell"
    by code_simp
  have o: "buyOrder priorityMatch = keenBuy" "sellOrder priorityMatch = lateCheapSell"
    by (simp_all add: priorityMatch_def)
  have t: "\<not> timestamp lateCheapSell \<le> timestamp earlyDearSell" by code_simp
  from claimed_sell_priority [of exampleEnv "''A''" priorityBook] obtain new where
    n: "completedMatches (matchOrders exampleEnv ''A'' priorityBook) =
          completedMatches priorityBook @ new"
    and b: "\<And>earlier m later. new = earlier @ m # later \<Longrightarrow>
            eligible (ordersOf (sellOrders priorityBook) ''A'') earlier (buyOrder m) (sellOrder m) \<and>
            (\<forall>s. eligible (ordersOf (sellOrders priorityBook) ''A'') earlier (buyOrder m) s \<longrightarrow>
               price (sellOrder m) < price s \<or>
               (price (sellOrder m) = price s \<and>
                timestamp (sellOrder m) \<le> timestamp s))"
    by blast
  from n run have "new = [] @ priorityMatch # []" by (simp only: same_append_eq)
  from b [OF this] e t show ?thesis unfolding o by (simp only: run) blast
qed


subsection \<open>Strings of digits\<close>

lemma digitVal_digitChar: "d < 16 \<Longrightarrow> digitVal (digitChar d) = Some d"
  by (auto simp: digitVal_def digitChar_def Let_def)

lemma plainChar_digitChar: "d < 16 \<Longrightarrow> plainChar (digitChar d)"
  by (auto simp: plainChar_def digitChar_def)

lemma parseDigits_append:
  "parseDigits r (xs @ ys) acc =
     (case parseDigits r xs acc of None \<Rightarrow> None | Some v \<Rightarrow> parseDigits r ys v)"
  by (induction xs arbitrary: acc) (auto split: option.splits)

lemma natToDigits_small: "n < r \<Longrightarrow> natToDigits r n = [digitChar n]"
  by (simp add: natToDigits.simps [of r n])

lemma natToDigits_large:
  "2 \<le> r \<Longrightarrow> r \<le> n \<Longrightarrow> natToDigits r n = natToDigits r (n div r) @ [digitChar (n mod r)]"
  by (simp add: natToDigits.simps [of r n])

lemma parseDigits_natToDigits:
  "2 \<le> r \<Longrightarrow> r \<le> 16 \<Longrightarrow> parseDigits r (natToDigits r n) acc = Some (acc * r ^ length (natToDigits r n) + n)"
proof (induction r n arbitrary: acc rule: natToDigits.induct)
  case (1 r n)
  show ?case
  proof (cases "n < r")
    case True
    with "1.prems" show ?thesis
      by (simp add: natToDigits_small digitVal_digitChar)
  next
    case False
    with "1.prems" have big: "r \<le> n" by simp
    have step: "parseDigits r (natToDigits r (n div r)) acc =
                Some (acc * r ^ length (natToDigits r (n div r)) + n div r)"
      using "1.IH" [of acc] "1.prems" False by simp
    have lt: "n mod r < r" using "1.prems" by simp
    with "1.prems" have "n mod r < 16" by linarith
    then have d: "digitVal (digitChar (n mod r)) = Some (n mod r)" by (rule digitVal_digitChar)
    show ?thesis
      unfolding natToDigits_large [OF "1.prems"(1) big] parseDigits_append step
      using d lt by (simp add: algebra_simps)
  qed
qed


lemma leadingWhiteSpace_plain: "plainChar c \<Longrightarrow> leadingWhiteSpace (c # s) = 0"
  by (simp add: leadingWhiteSpace_def startsWith_def whiteSpaceChars_def plainChar_def)

lemma trailingWhiteSpace_plain: "plainChar c \<Longrightarrow> trailingWhiteSpace (s @ [c]) = 0"
  by (simp add: trailingWhiteSpace_def startsWith_def whiteSpaceChars_def plainChar_def)

lemma trim_no_ws: "\<forall>c \<in> set s. plainChar c \<Longrightarrow> trim s = s"
proof (cases s rule: rev_cases)
  case Nil
  then show ?thesis by (simp add: trim_def trimStart.simps [of "[]"] trimEnd.simps [of "[]"])
next
  case (snoc ys y)
  assume p: "\<forall>c \<in> set s. plainChar c"
  have e: "trimEnd s = s"
    using p snoc by (simp add: trimEnd.simps [of "ys @ [y]"] trailingWhiteSpace_plain)
  have "s \<noteq> []" using snoc by simp
  then obtain x xs where c: "s = x # xs" by (auto simp: neq_Nil_conv)
  have "trimStart s = s"
    using p c by (simp add: trimStart.simps [of "x # xs"] leadingWhiteSpace_plain)
  with e show ?thesis by (simp add: trim_def)
qed

lemma set_natToDigits: "2 \<le> r \<Longrightarrow> set (natToDigits r n) \<subseteq> digitChar ` {..<r}"
proof (induction r n rule: natToDigits.induct)
  case (1 r n)
  show ?case
  proof (cases "n < r")
    case True
    then show ?thesis by (simp add: natToDigits_small)
  next
    case False
    with "1.prems" have big: "r \<le> n" by simp
    from "1.IH" "1.prems" False have "set (natToDigits r (n div r)) \<subseteq> digitChar ` {..<r}"
      by simp
    moreover have "n mod r < r" using "1.prems" by simp
    ultimately show ?thesis
      unfolding natToDigits_large [OF "1.prems" big] by auto
  qed
qed

lemma natToDigits_nonempty: "natToDigits r n \<noteq> []"
  by (subst natToDigits.simps) simp

lemma of_char_digitChar:
  "d < 16 \<Longrightarrow> (of_char (digitChar d) :: nat) = (if d < 10 then 48 + d else 87 + d)"
  by (simp add: digitChar_def)

lemma digitChar_neq:
  assumes "d < 16" and "(of_char c :: nat) < 48 \<or> (57 < (of_char c :: nat) \<and> (of_char c :: nat) < 97)
     \<or> 102 < (of_char c :: nat)"
  shows "digitChar d \<noteq> c"
proof
  assume "digitChar d = c"
  then have "(of_char (digitChar d) :: nat) = of_char c" by simp
  with assms show False by (simp add: of_char_digitChar split: if_splits)
qed

lemma digitChar_dec_neq:
  assumes "d < 10" and "(of_char c :: nat) < 48 \<or> 57 < (of_char c :: nat)"
  shows "digitChar d \<noteq> c"
proof
  assume "digitChar d = c"
  then have "(of_char (digitChar d) :: nat) = of_char c" by simp
  with assms show False by (simp add: of_char_digitChar split: if_splits)
qed

lemma radixOfPrefix_dec: "d < 10 \<Longrightarrow> radixOfPrefix (digitChar d) = None"
  by (simp add: radixOfPrefix_def digitChar_dec_neq)

lemma BigInt_trimmed:
  "trim s = s \<Longrightarrow>
   BigInt s =
     (case s of
        [] \<Rightarrow> Some 0
      | [c] \<Rightarrow> parseDecimal s
      | c # x # rest \<Rightarrow>
          (case (if c = CHR ''0'' then radixOfPrefix x else None) of
             Some r \<Rightarrow> map_option int (parseNat r rest)
           | None \<Rightarrow> parseDecimal s))"
  by (simp add: BigInt_def Let_def)

lemma BigInt_decimal:
  assumes ne: "s \<noteq> []" and digits: "set s \<subseteq> digitChar ` {..<10}"
  shows "BigInt s = map_option int (parseDigits 10 s 0)"
proof -
  have nows: "\<forall>c \<in> set s. plainChar c"
    using digits plainChar_digitChar by fastforce
  have t: "trim s = s" by (rule trim_no_ws [OF nows])
  from ne obtain c cs where s: "s = c # cs" by (cases s) auto
  from digits obtain d where d: "d < 10" "c = digitChar d" by (auto simp: s)
  have sign: "c \<noteq> CHR ''-''" "c \<noteq> CHR ''+''"
    using d by (simp_all add: digitChar_dec_neq)
  have dec: "parseDecimal s = map_option int (parseDigits 10 s 0)"
    using sign by (simp add: parseDecimal_def s parseNat_def)
  show ?thesis
  proof (cases cs)
    case Nil
    have "BigInt s = parseDecimal s"
      using BigInt_trimmed [OF t] unfolding s Nil by (simp only: list.case)
    with dec show ?thesis by (simp only:)
  next
    case (Cons x rest)
    from digits obtain e where e: "e < 10" "x = digitChar e" by (auto simp: s Cons)
    have "radixOfPrefix x = None" using e by (simp add: radixOfPrefix_dec)
    then have r: "(if c = CHR ''0'' then radixOfPrefix x else None) = None" by simp
    have "BigInt s = parseDecimal s"
      using BigInt_trimmed [OF t] unfolding s Cons by (simp only: list.case r option.case)
    with dec show ?thesis by (simp only:)
  qed
qed

lemma BigInt_toString_nat: "BigInt (toStringRadix 10 (int n)) = Some (int n)"
proof -
  have "BigInt (natToDigits 10 n) = map_option int (parseDigits 10 (natToDigits 10 n) 0)"
    by (rule BigInt_decimal [OF natToDigits_nonempty]) (rule set_natToDigits, simp)
  then show ?thesis
    by (simp add: toStringRadix_def parseDigits_natToDigits)
qed

lemma BigInt_hex:
  assumes digits: "set h \<subseteq> digitChar ` {..<16}"
  shows "BigInt (''0x'' @ h) = (if h = [] then None else map_option int (parseDigits 16 h 0))"
proof -
  have "\<forall>c \<in> set (''0x'' @ h). plainChar c"
    using digits plainChar_digitChar by (fastforce simp: plainChar_def)
  then have t: "trim (''0x'' @ h) = ''0x'' @ h" by (rule trim_no_ws)
  from BigInt_trimmed [OF t] show ?thesis
    by (simp add: radixOfPrefix_def parseNat_def)
qed


lemma set_Buffer_toString_hex: "set (Buffer_toString_hex bs) \<subseteq> digitChar ` {..<16}"
proof -
  have "unat b div 16 < 16" "unat b mod 16 < 16" for b :: "8 word"
    using unsigned_less [of b, where ?'a = nat] by simp_all
  then show ?thesis by (auto simp: Buffer_toString_hex_def)
qed

lemma parseDigits_byte:
  "parseDigits 16 (digitChar (unat (b :: 8 word) div 16) # digitChar (unat b mod 16) # rest) acc =
   parseDigits 16 rest (acc * 256 + unat b)"
proof -
  have hi: "unat b div 16 < 16" and lo: "unat b mod 16 < 16"
    using unsigned_less [of b, where ?'a = nat] by simp_all
  have e: "(acc * 16 + unat b div 16) * 16 + unat b mod 16 = acc * 256 + unat b"
    by (simp add: algebra_simps)
  have "parseDigits 16 (digitChar (unat b div 16) # digitChar (unat b mod 16) # rest) acc =
        parseDigits 16 rest ((acc * 16 + unat b div 16) * 16 + unat b mod 16)"
    by (simp only: parseDigits.simps digitVal_digitChar [OF hi] digitVal_digitChar [OF lo]
          option.case hi lo if_True)
  then show ?thesis by (simp only: e)
qed

lemma parseDigits_Buffer_toString_hex:
  "parseDigits 16 (Buffer_toString_hex bs) acc = Some (foldl (\<lambda>a b. a * 256 + unat b) acc bs)"
proof (induction bs arbitrary: acc)
  case Nil
  then show ?case by (simp add: Buffer_toString_hex_def)
next
  case (Cons b bs)
  have "Buffer_toString_hex (b # bs) =
        digitChar (unat b div 16) # digitChar (unat b mod 16) # Buffer_toString_hex bs"
    by (simp add: Buffer_toString_hex_def)
  then show ?case
    by (simp only: parseDigits_byte Cons.IH foldl_Cons)
qed

lemma be_nat_bound: "foldl (\<lambda>a b. a * 256 + unat (b :: 8 word)) acc bs < (acc + 1) * 256 ^ length bs"
proof (induction bs arbitrary: acc)
  case Nil
  then show ?case by simp
next
  case (Cons b bs)
  have "unat b < 256" using unsigned_less [of b, where ?'a = nat] by simp
  then have "acc * 256 + unat b + 1 \<le> (acc + 1) * 256" by simp
  then have "(acc * 256 + unat b + 1) * 256 ^ length bs \<le> (acc + 1) * 256 * 256 ^ length bs"
    by (rule mult_le_mono1)
  with Cons.IH [of "acc * 256 + unat b"]
  have "foldl (\<lambda>a b. a * 256 + unat b) (acc * 256 + unat b) bs < (acc + 1) * 256 * 256 ^ length bs"
    by (rule less_le_trans)
  then show ?case by (simp add: algebra_simps)
qed

lemma be_nat_lt: "be_nat bs < 256 ^ length bs"
  using be_nat_bound [of 0 bs] by (simp add: be_nat_def)

lemma BigInt_hex_bytes:
  "BigInt (''0x'' @ Buffer_toString_hex bs) = (if bs = [] then None else Some (int (be_nat bs)))"
proof -
  have "Buffer_toString_hex bs = [] \<longleftrightarrow> bs = []"
    by (cases bs) (simp_all add: Buffer_toString_hex_def)
  then show ?thesis
    unfolding BigInt_hex [OF set_Buffer_toString_hex] parseDigits_Buffer_toString_hex be_nat_def
    by simp
qed

lemma digitChar_0: "digitChar 0 = CHR ''0''"
  by code_simp

lemma byte_toString_hex:
  "padStart 2 CHR ''0'' (toStringRadix 16 (uint (b :: 8 word))) =
   [digitChar (unat b div 16), digitChar (unat b mod 16)]"
proof -
  have n: "nat (uint b) = unat b" by simp
  have lt: "unat b < 256" using unsigned_less [of b, where ?'a = nat] by simp
  show ?thesis
  proof (cases "unat b < 16")
    case True
    then show ?thesis
      by (simp add: toStringRadix_def n natToDigits_small padStart_def digitChar_0)
  next
    case False
    then have big: "16 \<le> unat b" by simp
    from lt have "unat b div 16 < 16" by simp
    then show ?thesis
      by (simp add: toStringRadix_def n natToDigits_large [OF _ big] natToDigits_small padStart_def)
  qed
qed


lemma fixedDigits_0: "fixedDigits 16 k 0 = replicate k CHR ''0''"
  by (induction k) (simp_all add: digitChar_0 replicate_append_same)

lemma length_fixedDigits: "length (fixedDigits r k n) = k"
  by (induction k arbitrary: n) simp_all

lemma set_fixedDigits: "0 < r \<Longrightarrow> set (fixedDigits r k n) \<subseteq> digitChar ` {..<r}"
  by (induction k arbitrary: n) auto

lemma length_natToDigits: "n < 16 ^ Suc k \<Longrightarrow> length (natToDigits 16 n) \<le> Suc k"
proof (induction k arbitrary: n)
  case 0
  then show ?case by (simp add: natToDigits_small)
next
  case (Suc k)
  show ?case
  proof (cases "n < 16")
    case True
    then show ?thesis by (simp add: natToDigits_small)
  next
    case False
    then have big: "16 \<le> n" by simp
    from Suc.prems have "n div 16 < 16 ^ Suc k"
      by (simp add: less_mult_imp_div_less)
    from Suc.IH [OF this] show ?thesis
      by (simp add: natToDigits_large [OF _ big])
  qed
qed

lemma padStart_natToDigits:
  "n < 16 ^ Suc k \<Longrightarrow> padStart (Suc k) CHR ''0'' (natToDigits 16 n) = fixedDigits 16 (Suc k) n"
proof (induction k arbitrary: n)
  case 0
  then show ?case by (simp add: natToDigits_small padStart_def)
next
  case (Suc k)
  show ?case
  proof (cases "n < 16")
    case True
    then show ?thesis
      by (simp add: natToDigits_small padStart_def fixedDigits_0 digitChar_0 replicate_append_same)
  next
    case False
    then have big: "16 \<le> n" by simp
    from Suc.prems have small: "n div 16 < 16 ^ Suc k"
      by (simp add: less_mult_imp_div_less)
    have len: "length (natToDigits 16 (n div 16)) \<le> Suc k"
      by (rule length_natToDigits [OF small])
    have "padStart (Suc (Suc k)) CHR ''0'' (natToDigits 16 n) =
          padStart (Suc k) CHR ''0'' (natToDigits 16 (n div 16)) @ [digitChar (n mod 16)]"
      using len by (simp add: natToDigits_large [OF _ big] padStart_def Suc_diff_le)
    then show ?thesis by (simp add: Suc.IH [OF small])
  qed
qed

lemma Buffer_from_hex_append:
  "even (length xs) \<Longrightarrow> set xs \<subseteq> digitChar ` {..<16} \<Longrightarrow>
   Buffer_from_hex (xs @ ys) = Buffer_from_hex xs @ Buffer_from_hex ys"
proof (induction xs rule: Buffer_from_hex.induct)
  case (1 a b rest)
  from "1.prems" obtain x y where "x < 16" "a = digitChar x" "y < 16" "b = digitChar y"
    by auto
  then have "digitVal a = Some x" "digitVal b = Some y"
    by (simp_all add: digitVal_digitChar)
  with 1 show ?case by simp
qed simp_all

lemma Buffer_from_hex_pair:
  "Buffer_from_hex [digitChar (n div 16 mod 16), digitChar (n mod 16)] = [of_nat (n mod 256)]"
proof -
  have hi: "n div 16 mod 16 < 16" and lo: "n mod 16 < 16" by simp_all
  have e: "16 * (n div 16 mod 16) + n mod 16 = n mod 256"
    using mod_mult2_eq [of n 16 16] by simp
  have "Buffer_from_hex [digitChar (n div 16 mod 16), digitChar (n mod 16)] =
        [of_nat (16 * (n div 16 mod 16) + n mod 16)]"
    by (simp only: Buffer_from_hex.simps digitVal_digitChar [OF hi] digitVal_digitChar [OF lo]
          prod.case option.case)
  then show ?thesis by (simp only: e)
qed

lemma fixedDigits_two:
  "fixedDigits 16 (2 * Suc k) n =
   fixedDigits 16 (2 * k) (n div 256) @ [digitChar (n div 16 mod 16), digitChar (n mod 16)]"
proof -
  have "2 * Suc k = Suc (Suc (2 * k))" by simp
  moreover have "n div 16 div 16 = n div 256" by (simp add: div_mult2_eq)
  ultimately show ?thesis by simp
qed

lemma Buffer_from_hex_fixedDigits:
  "Buffer_from_hex (fixedDigits 16 (2 * k) n) = be_bytes k n"
proof (induction k arbitrary: n)
  case 0
  then show ?case by simp
next
  case (Suc k)
  have ev: "even (length (fixedDigits 16 (2 * k) (n div 256)))"
    by (simp add: length_fixedDigits)
  have dg: "set (fixedDigits 16 (2 * k) (n div 256)) \<subseteq> digitChar ` {..<16}"
    by (rule set_fixedDigits) simp
  show ?case
    unfolding fixedDigits_two Buffer_from_hex_append [OF ev dg] Buffer_from_hex_pair Suc.IH
    by simp
qed

lemma length_be_bytes: "length (be_bytes k n) = k"
  by (induction k arbitrary: n) simp_all

lemma be_nat_snoc: "be_nat (bs @ [b]) = be_nat bs * 256 + unat b"
  by (simp add: be_nat_def)

lemma be_nat_be_bytes: "be_nat (be_bytes k n) = n mod 256 ^ k"
proof (induction k arbitrary: n)
  case 0
  then show ?case by (simp add: be_nat_def)
next
  case (Suc k)
  have "unat (of_nat (n mod 256) :: 8 word) = n mod 256"
    by (simp add: unat_of_nat)
  then have "be_nat (be_bytes (Suc k) n) = (n div 256 mod 256 ^ k) * 256 + n mod 256"
    by (simp add: be_nat_snoc Suc.IH)
  also have "\<dots> = n mod 256 ^ Suc k"
    by (simp add: mod_mult2_eq)
  finally show ?case .
qed


lemma digitVal_decimal:
  "digitVal CHR ''0'' = Some 0" "digitVal CHR ''1'' = Some 1" "digitVal CHR ''2'' = Some 2"
  "digitVal CHR ''3'' = Some 3" "digitVal CHR ''4'' = Some 4" "digitVal CHR ''5'' = Some 5"
  "digitVal CHR ''6'' = Some 6" "digitVal CHR ''7'' = Some 7" "digitVal CHR ''8'' = Some 8"
  "digitVal CHR ''9'' = Some 9"
  by (simp_all add: digitVal_def)

lemma BigInt_one_digit:
  "BigInt ''0'' = Some 0" "BigInt ''1'' = Some 1" "BigInt ''2'' = Some 2" "BigInt ''3'' = Some 3"
  "BigInt ''4'' = Some 4" "BigInt ''5'' = Some 5" "BigInt ''6'' = Some 6" "BigInt ''7'' = Some 7"
  "BigInt ''8'' = Some 8" "BigInt ''9'' = Some 9"
  by (simp_all add: BigInt_trimmed trim_no_ws plainChar_def parseDecimal_def parseNat_def
      digitVal_decimal)

lemma BigInt_wideSignal:
  "BigInt wideSignal =
     Some 1852673427797059126777135760139006525652319754650249024631321344126610074238976"
  by (simp add: BigInt_trimmed trim_no_ws plainChar_def wideSignal_def parseDecimal_def
      parseNat_def digitVal_decimal radixOfPrefix_def)

lemma length_Buffer_from_hex:
  "set xs \<subseteq> digitChar ` {..<16} \<Longrightarrow> length (Buffer_from_hex xs) = length xs div 2"
proof (induction xs rule: Buffer_from_hex.induct)
  case (1 a b rest)
  from "1.prems" obtain x y where "x < 16" "a = digitChar x" "y < 16" "b = digitChar y"
    by auto
  then have "digitVal a = Some x" "digitVal b = Some y"
    by (simp_all add: digitVal_digitChar)
  with 1 show ?case by simp
qed simp_all

lemma length_natToDigits_exact:
  "16 ^ k \<le> n \<Longrightarrow> n < 16 ^ Suc k \<Longrightarrow> length (natToDigits 16 n) = Suc k"
proof (induction k arbitrary: n)
  case 0
  then show ?case by (simp add: natToDigits_small)
next
  case (Suc k)
  have "(1 :: nat) \<le> 16 ^ k" by simp
  then have "(16 :: nat) * 1 \<le> 16 * 16 ^ k" by (rule mult_le_mono2)
  then have "(16 :: nat) \<le> 16 ^ Suc k" by simp
  with Suc.prems(1) have big: "16 \<le> n" by linarith
  from Suc.prems(1) have "16 * 16 ^ k div 16 \<le> n div 16"
    by (intro div_le_mono) simp
  then have lo: "16 ^ k \<le> n div 16" by simp
  from Suc.prems(2) have hi: "n div 16 < 16 ^ Suc k"
    by (simp add: less_mult_imp_div_less)
  from Suc.IH [OF lo hi] show ?case
    by (simp add: natToDigits_large [OF _ big])
qed



subsection \<open>Order commitments\<close>

lemma randomBytes_hex:
  "randomBytes g len = (Buffer_toString_hex (map g [0..<len]), \<lambda>k. g (k + len))"
  by (simp add: randomBytes_def getRandomValues_def Buffer_toString_hex_def byte_toString_hex
      o_def)

lemma map_shift_upt: "map (\<lambda>k. g (k + m)) [0..<n] = map g [m..<m + n]"
  by (induction n) (simp_all add: add.commute)

lemma generateOrderCommitment_result:
  "generateOrderCommitment poseidon params g =
     (Some \<lparr>oc_commitment = F_toString (poseidon
               [F_e (param_assetHash params), F_e (param_side params),
                F_e (param_quantity params), F_e (param_price params),
                F_e (int (be_nat (map g [32..<64]))), F_e (int (be_nat (map g [0..<32])))]),
            oc_secret = int (be_nat (map g [0..<32])),
            oc_nonce = int (be_nat (map g [32..<64]))\<rparr>,
      \<lambda>k. g (k + 64))"
proof -
  let ?b1 = "map g [0..<32]"
  let ?b2 = "map (\<lambda>k. g (k + 32)) [0..<32]"
  have b2: "?b2 = map g [32..<64]"
    using map_shift_upt [of g 32 32] by (simp only: semiring_norm)
  have p1: "BigInt (''0x'' @ Buffer_toString_hex ?b1) = Some (int (be_nat ?b1))"
    unfolding BigInt_hex_bytes by simp
  have p2: "BigInt (''0x'' @ Buffer_toString_hex ?b2) = Some (int (be_nat ?b2))"
    unfolding BigInt_hex_bytes by simp
  have "(\<lambda>k. g (k + 32 + 32)) = (\<lambda>k. g (k + 64))" by (simp add: add.assoc)
  then show ?thesis
    unfolding generateOrderCommitment_def randomBytes_hex prod.case p1 p2 option.case b2 [symmetric]
    by simp
qed

lemma int_be_nat_32: "length bs = 32 \<Longrightarrow> int (be_nat bs) < 2 ^ 256"
proof -
  assume "length bs = 32"
  with be_nat_lt [of bs] have "be_nat bs < 2 ^ 256" by simp
  then show ?thesis by (metis of_nat_less_iff of_nat_numeral of_nat_power)
qed

text \<open>
  C8 (amended). For every value of the bytes drawn, \<open>generateOrderCommitment\<close> returns
  as secret the first 32 bytes and as nonce the next 32 bytes read big-endian: integers
  from 0 to \<open>2 ^ 256 - 1\<close>. They are reduced into the field only as inputs of the
  commitment hash.
\<close>

theorem generateOrderCommitment_secrets:
  "\<exists>oc. generateOrderCommitment poseidon params g = (Some oc, \<lambda>k. g (k + 64)) \<and>
        oc_secret oc = int (be_nat (map g [0..<32])) \<and>
        oc_nonce oc = int (be_nat (map g [32..<64])) \<and>
        0 \<le> oc_secret oc \<and> oc_secret oc < 2 ^ 256 \<and>
        0 \<le> oc_nonce oc \<and> oc_nonce oc < 2 ^ 256 \<and>
        oc_commitment oc = F_toString (poseidon
          [F_e (param_assetHash params), F_e (param_side params),
           F_e (param_quantity params), F_e (param_price params),
           F_e (oc_nonce oc), F_e (oc_secret oc)])"
proof -
  have "int (be_nat (map g [0..<32])) < 2 ^ 256" "int (be_nat (map g [32..<64])) < 2 ^ 256"
    by (rule int_be_nat_32, simp)+
  then show ?thesis
    unfolding generateOrderCommitment_result by simp
qed

lemma foldl_ones:
  "foldl (\<lambda>a b. a * 256 + unat b) acc (replicate n (255 :: 8 word)) + 1 = (acc + 1) * 256 ^ n"
proof (induction n arbitrary: acc)
  case 0
  then show ?case by simp
next
  case (Suc n)
  have u: "unat (255 :: 8 word) = 255" by simp
  from Suc [of "acc * 256 + 255"] show ?case
    by (simp only: replicate_Suc foldl_Cons u) (simp add: algebra_simps)
qed

lemma be_nat_allOnes: "be_nat (map allOnes [0..<32]) = 2 ^ 256 - 1"
proof -
  have "map allOnes [0..<32] = replicate 32 255"
    unfolding allOnes_def map_replicate_const by simp
  moreover have "(256 :: nat) ^ 32 = 2 ^ 256" by simp
  ultimately show ?thesis
    using foldl_ones [of 0 32] by (simp add: be_nat_def)
qed

text \<open>
  C8 as stated fails: when the 32 bytes drawn are all \<open>0xff\<close> the secret returned is
  \<open>2 ^ 256 - 1\<close>, which is not below the field prime.
\<close>

theorem secret_not_reduced_counterexample:
  "map_option oc_secret (fst (generateOrderCommitment toyPoseidon exampleParams allOnes)) =
     Some (2 ^ 256 - 1) \<and>
   \<not> (2 ^ 256 - 1 < bn254_r)"
  unfolding generateOrderCommitment_result
  by (simp add: be_nat_allOnes bn254_r_def)

subsection \<open>Proof encoding\<close>

lemma toBytes32_coordinate:
  "coordinate s n \<Longrightarrow> toBytes32 (Some s) = Some (fixedDigits 16 64 n)"
proof -
  assume c: "coordinate s n"
  then have "n < 16 ^ Suc 63" by (simp add: coordinate_def)
  from padStart_natToDigits [OF this] c show ?thesis
    by (simp add: toBytes32_def coordinate_def toStringRadix_def)
qed

lemma decode_fixed64:
  "Buffer_from_hex (fixedDigits 16 64 n @ rest) = be_bytes 32 n @ Buffer_from_hex rest"
proof -
  have ev: "even (length (fixedDigits 16 64 n))" by (simp add: length_fixedDigits)
  have dg: "set (fixedDigits 16 64 n) \<subseteq> digitChar ` {..<16}"
    by (rule set_fixedDigits) simp
  have "fixedDigits 16 64 n = fixedDigits 16 (2 * 32) n" by simp
  then show ?thesis
    unfolding Buffer_from_hex_append [OF ev dg]
    by (simp only: Buffer_from_hex_fixedDigits)
qed

lemma decode_fixed8:
  "Buffer_from_hex (fixedDigits 16 8 n @ rest) = be_bytes 4 n @ Buffer_from_hex rest"
proof -
  have ev: "even (length (fixedDigits 16 8 n))" by (simp add: length_fixedDigits)
  have dg: "set (fixedDigits 16 8 n) \<subseteq> digitChar ` {..<16}"
    by (rule set_fixedDigits) simp
  have "fixedDigits 16 8 n = fixedDigits 16 (2 * 4) n" by simp
  then show ?thesis
    unfolding Buffer_from_hex_append [OF ev dg]
    by (simp only: Buffer_from_hex_fixedDigits)
qed

lemma those_signals:
  "list_all2 coordinate signals vals \<Longrightarrow>
   those (map (\<lambda>s. toBytes32 (Some s)) signals) = Some (map (fixedDigits 16 64) vals)"
  by (induction signals vals rule: list_all2_induct) (simp_all add: toBytes32_coordinate)

lemma decode_signals:
  "Buffer_from_hex (concat (map (fixedDigits 16 64) vals)) = concat (map (be_bytes 32) vals)"
  by (induction vals) (simp_all add: decode_fixed64)


lemma length_concat_be_bytes: "length (concat (map (be_bytes 32) vals)) = 32 * length vals"
  by (induction vals) (simp_all add: length_be_bytes)

lemma lengthHex_fixed:
  "n < 2 ^ 32 \<Longrightarrow> padStart 8 CHR ''0'' (toStringRadix 16 (int n)) = fixedDigits 16 8 n"
proof -
  assume "n < 2 ^ 32"
  then have "n < 16 ^ Suc 7" by simp
  from padStart_natToDigits [OF this] show ?thesis
    by (simp add: toStringRadix_def)
qed

lemma g1ToBytes_coordinates:
  "coordinate sx x \<Longrightarrow> coordinate sy y \<Longrightarrow>
   g1ToBytes (sx # sy # r) = Some (fixedDigits 16 64 x @ fixedDigits 16 64 y)"
  by (simp add: g1ToBytes_def at_def toBytes32_coordinate)

lemma g2ToBytes_coordinates:
  "coordinate sx0 x0 \<Longrightarrow> coordinate sx1 x1 \<Longrightarrow> coordinate sy0 y0 \<Longrightarrow> coordinate sy1 y1 \<Longrightarrow>
   g2ToBytes ((sx0 # sx1 # rx) # (sy0 # sy1 # ry) # r) =
     Some (fixedDigits 16 64 x1 @ fixedDigits 16 64 x0 @ fixedDigits 16 64 y1 @ fixedDigits 16 64 y0)"
  by (simp add: g2ToBytes_def at_def toBytes32_coordinate)

lemma coordinate_digits:
  "coordinate ''0'' 0" "coordinate ''1'' 1" "coordinate ''2'' 2" "coordinate ''3'' 3"
  "coordinate ''4'' 4" "coordinate ''5'' 5" "coordinate ''6'' 6" "coordinate ''7'' 7"
  "coordinate ''8'' 8" "coordinate ''9'' 9"
  by (simp_all add: coordinate_def BigInt_one_digit)

lemma exampleProof_bytes:
  "g1ToBytes (pi_a exampleProof) = Some (fixedDigits 16 64 1 @ fixedDigits 16 64 2)"
  "g2ToBytes (pi_b exampleProof) =
     Some (fixedDigits 16 64 4 @ fixedDigits 16 64 3 @ fixedDigits 16 64 6 @ fixedDigits 16 64 5)"
  "g1ToBytes (pi_c exampleProof) = Some (fixedDigits 16 64 7 @ fixedDigits 16 64 8)"
  unfolding exampleProof_def Groth16Proof.simps
  by (rule g1ToBytes_coordinates g2ToBytes_coordinates coordinate_digits)+

text \<open>
  C6 (amended). For every Groth16 proof whose eight coordinates are strings of numbers
  from 0 to \<open>2 ^ 256 - 1\<close> and every list of fewer than \<open>2 ^ 32\<close> public signals that
  are strings of numbers in the same range, \<open>convertProofForSoroban\<close> returns as
  \<open>proofBytes\<close> the 256 bytes A.x, A.y, B.x1, B.x0, B.y1, B.y0, C.x, C.y, each coordinate
  in 32 bytes big-endian, and as \<open>signalsBytes\<close> the count in 4 bytes big-endian followed
  by each signal in 32 bytes big-endian, \<open>4 + 32 * n\<close> bytes in all. (\<open>be_bytes\<close> is
  the inverse of \<open>be_nat\<close>: lemma \<open>be_nat_be_bytes\<close>.)
\<close>

theorem convertProofForSoroban_layout:
  assumes a: "coordinate sax ax" "coordinate say ay"
    and b: "coordinate sbx0 bx0" "coordinate sbx1 bx1" "coordinate sby0 by0" "coordinate sby1 by1"
    and c: "coordinate scx cx" "coordinate scy cy"
    and sigs: "list_all2 coordinate signals vals"
    and n: "length signals < 2 ^ 32"
  shows "convertProofForSoroban
           \<lparr>pi_a = sax # say # ra,
            pi_b = (sbx0 # sbx1 # rbx) # (sby0 # sby1 # rby) # rb,
            pi_c = scx # scy # rc\<rparr> signals =
         Some (be_bytes 32 ax @ be_bytes 32 ay @
               be_bytes 32 bx1 @ be_bytes 32 bx0 @ be_bytes 32 by1 @ be_bytes 32 by0 @
               be_bytes 32 cx @ be_bytes 32 cy,
               be_bytes 4 (length signals) @ concat (map (be_bytes 32) vals)) \<and>
         length (be_bytes 32 ax @ be_bytes 32 ay @
               be_bytes 32 bx1 @ be_bytes 32 bx0 @ be_bytes 32 by1 @ be_bytes 32 by0 @
               be_bytes 32 cx @ be_bytes 32 cy) = 256 \<and>
         length (be_bytes 4 (length signals) @ concat (map (be_bytes 32) vals)) =
           4 + 32 * length signals"
proof -
  have len: "length vals = length signals"
    using sigs by (simp add: list_all2_lengthD)
  have proofBytes:
    "Buffer_from_hex ((fixedDigits 16 64 ax @ fixedDigits 16 64 ay) @
       (fixedDigits 16 64 bx1 @ fixedDigits 16 64 bx0 @ fixedDigits 16 64 by1 @ fixedDigits 16 64 by0) @
       (fixedDigits 16 64 cx @ fixedDigits 16 64 cy)) =
     be_bytes 32 ax @ be_bytes 32 ay @
               be_bytes 32 bx1 @ be_bytes 32 bx0 @ be_bytes 32 by1 @ be_bytes 32 by0 @
               be_bytes 32 cx @ be_bytes 32 cy"
  proof -
    have last: "Buffer_from_hex (fixedDigits 16 64 cy) = be_bytes 32 cy"
      using decode_fixed64 [of cy "[]"] by simp
    show ?thesis by (simp only: append_assoc decode_fixed64 last)
  qed
  have signalBytes:
    "Buffer_from_hex (fixedDigits 16 8 (length signals) @ concat (map (fixedDigits 16 64) vals)) =
     be_bytes 4 (length signals) @ concat (map (be_bytes 32) vals)"
    by (simp only: decode_fixed8 decode_signals)
  have "convertProofForSoroban
           \<lparr>pi_a = sax # say # ra,
            pi_b = (sbx0 # sbx1 # rbx) # (sby0 # sby1 # rby) # rb,
            pi_c = scx # scy # rc\<rparr> signals =
         Some (be_bytes 32 ax @ be_bytes 32 ay @
               be_bytes 32 bx1 @ be_bytes 32 bx0 @ be_bytes 32 by1 @ be_bytes 32 by0 @
               be_bytes 32 cx @ be_bytes 32 cy,
               be_bytes 4 (length signals) @ concat (map (be_bytes 32) vals))"
    unfolding convertProofForSoroban_def Let_def
    by (simp only: Groth16Proof.simps g1ToBytes_coordinates [OF a] g2ToBytes_coordinates [OF b]
          g1ToBytes_coordinates [OF c] option.case those_signals [OF sigs] lengthHex_fixed [OF n]
          proofBytes signalBytes)
  then show ?thesis
    by (simp add: length_be_bytes length_concat_be_bytes len)
qed


theorem convertProofForSoroban_layout_witness:
  "coordinate ''1'' 1 \<and> coordinate ''8'' 8 \<and> list_all2 coordinate [''9'', ''7''] [9, 7] \<and>
   length [''9'', ''7''] < (2 :: nat) ^ 32 \<and>
   convertProofForSoroban exampleProof [''9'', ''7''] =
     Some (be_bytes 32 1 @ be_bytes 32 2 @ be_bytes 32 4 @ be_bytes 32 3 @ be_bytes 32 6 @
           be_bytes 32 5 @ be_bytes 32 7 @ be_bytes 32 8,
           be_bytes 4 (length [''9'', ''7'']) @ concat (map (be_bytes 32) [9, 7]))"
proof -
  have sigs: "list_all2 coordinate [''9'', ''7''] [9, 7]"
    by (simp add: coordinate_digits)
  have n: "length [''9'', ''7''] < (2 :: nat) ^ 32" by simp
  from convertProofForSoroban_layout [OF coordinate_digits(2) coordinate_digits(3)
      coordinate_digits(4) coordinate_digits(5) coordinate_digits(6) coordinate_digits(7)
      coordinate_digits(8) coordinate_digits(9) sigs n,
      of "[''1'']" "[]" "[]" "[[''1'', ''0'']]" "[''1'']"]
  have "convertProofForSoroban exampleProof [''9'', ''7''] =
     Some (be_bytes 32 1 @ be_bytes 32 2 @ be_bytes 32 4 @ be_bytes 32 3 @ be_bytes 32 6 @
           be_bytes 32 5 @ be_bytes 32 7 @ be_bytes 32 8,
           be_bytes 4 (length [''9'', ''7'']) @ concat (map (be_bytes 32) [9, 7]))"
    unfolding exampleProof_def by (rule conjunct1)
  with coordinate_digits(2) coordinate_digits(9) sigs n show ?thesis by blast
qed


text \<open>
  C6 as stated fails for a public signal of more than 32 bytes: with the single signal
  \<open>2 ^ 260\<close> the buffer of signals has 37 bytes, not \<open>4 + 32\<close>.
\<close>

theorem wide_signal_counterexample:
  "map_option (\<lambda>r. length (snd r)) (convertProofForSoroban exampleProof [wideSignal]) = Some 37 \<and>
   4 + 32 * length [wideSignal] = 36"
proof -
  let ?N = "1852673427797059126777135760139006525652319754650249024631321344126610074238976 :: nat"
  have len: "length (natToDigits 16 ?N) = Suc 65"
    by (rule length_natToDigits_exact) simp_all
  have hex: "set (natToDigits 16 ?N) \<subseteq> digitChar ` {..<16}"
    by (rule set_natToDigits) simp
  have tb: "toBytes32 (Some wideSignal) = Some (natToDigits 16 ?N)"
    using len by (simp add: toBytes32_def BigInt_wideSignal toStringRadix_def padStart_def)
  have lh: "padStart 8 CHR ''0'' (toStringRadix 16 (int (length [wideSignal]))) = fixedDigits 16 8 1"
    using lengthHex_fixed [of 1] by simp
  have conv: "convertProofForSoroban exampleProof [wideSignal] =
        Some (Buffer_from_hex ((fixedDigits 16 64 1 @ fixedDigits 16 64 2) @
                (fixedDigits 16 64 4 @ fixedDigits 16 64 3 @ fixedDigits 16 64 6 @ fixedDigits 16 64 5) @
                (fixedDigits 16 64 7 @ fixedDigits 16 64 8)),
              Buffer_from_hex (fixedDigits 16 8 1 @ natToDigits 16 ?N))"
    unfolding convertProofForSoroban_def Let_def exampleProof_bytes option.case lh
    by (simp add: tb)
  have "set (fixedDigits 16 8 1 @ natToDigits 16 ?N) \<subseteq> digitChar ` {..<16}"
    using hex set_fixedDigits [of 16 8 1] by simp
  then have "length (Buffer_from_hex (fixedDigits 16 8 1 @ natToDigits 16 ?N)) =
             length (fixedDigits 16 8 1 @ natToDigits 16 ?N) div 2"
    by (rule length_Buffer_from_hex)
  also have "\<dots> = 37" by (simp add: length_fixedDigits len)
  finally show ?thesis by (simp add: conv)
qed


subsection \<open>Whitelist tree\<close>

lemma ceilLog2From_ge: "d \<le> ceilLog2From d m"
proof (induction d m rule: ceilLog2From.induct)
  case (1 d m)
  then show ?case
    by (cases "m \<le> 2 ^ d") (simp_all add: ceilLog2From.simps [of d m] Suc_leD)
qed

lemma ceilLog2From_bound: "m \<le> 2 ^ ceilLog2From d m"
proof (induction d m rule: ceilLog2From.induct)
  case (1 d m)
  then show ?case
    by (cases "m \<le> 2 ^ d") (simp_all add: ceilLog2From.simps [of d m])
qed

lemma ceilLog2From_least: "d \<le> k \<Longrightarrow> m \<le> 2 ^ k \<Longrightarrow> ceilLog2From d m \<le> k"
proof (induction d m rule: ceilLog2From.induct)
  case (1 d m)
  show ?case
  proof (cases "m \<le> 2 ^ d")
    case True
    with "1.prems" show ?thesis by (simp add: ceilLog2From.simps [of d m])
  next
    case False
    have "d \<noteq> k" using False "1.prems"(2) by auto
    with "1.prems"(1) have "Suc d \<le> k" by simp
    from "1.IH" [OF False this "1.prems"(2)] False show ?thesis
      by (simp add: ceilLog2From.simps [of d m])
  qed
qed

lemma actualDepthOf_props:
  "1 \<le> actualDepthOf n" "n \<le> 2 ^ actualDepthOf n" "n \<le> 2 ^ 20 \<Longrightarrow> actualDepthOf n \<le> 20"
proof -
  show "1 \<le> actualDepthOf n" by (simp add: actualDepthOf_def)
  have "n \<le> max 2 n" by simp
  also have "\<dots> \<le> 2 ^ ceilLog2From 0 (max 2 n)" by (rule ceilLog2From_bound)
  also have "\<dots> \<le> 2 ^ actualDepthOf n"
    by (rule power_increasing) (simp_all add: actualDepthOf_def)
  finally show "n \<le> 2 ^ actualDepthOf n" .
  assume "n \<le> 2 ^ 20"
  then have "max 2 n \<le> 2 ^ 20" by simp
  then have "ceilLog2From 0 (max 2 n) \<le> 20" by (intro ceilLog2From_least) simp_all
  then show "actualDepthOf n \<le> 20" by (simp add: actualDepthOf_def)
qed

lemma F_e_canon: "0 \<le> x \<Longrightarrow> x < bn254_r \<Longrightarrow> F_e x = x"
  by (simp add: F_e_def)

lemma bn254_r_gt1: "1 < bn254_r"
  by (simp add: bn254_r_def)


lemma canon_Cons: "canon (x # xs) \<longleftrightarrow> 0 \<le> x \<and> x < bn254_r \<and> canon xs"
  by (auto simp: canon_def)

lemma canon_nth: "canon xs \<Longrightarrow> i < length xs \<Longrightarrow> 0 \<le> xs ! i \<and> xs ! i < bn254_r"
  by (simp add: canon_def)

lemma nextLevel_even:
  "even (length xs) \<Longrightarrow> \<exists>ys. nextLevel H xs = Some ys \<and> length ys = length xs div 2"
  by (induction H xs rule: nextLevel.induct) auto

lemma nextLevel_canon:
  "fieldHash H \<Longrightarrow> nextLevel H xs = Some ys \<Longrightarrow> canon ys"
proof (induction H xs arbitrary: ys rule: nextLevel.induct)
  case (1 H)
  then show ?case by (simp add: canon_def)
next
  case (2 H l)
  then show ?case by simp
next
  case (3 H l r rest)
  from "3.prems"(2) obtain zs where zs: "nextLevel H rest = Some zs"
    and ys: "ys = F_toObject (H [F_e l, F_e r]) # zs"
    by auto
  from "3.IH" [OF "3.prems"(1) zs] "3.prems"(1) show ?case
    by (simp add: ys canon_Cons F_toObject_def fieldHash_def)
qed

lemma nextLevel_nth:
  "nextLevel H xs = Some ys \<Longrightarrow> canon xs \<Longrightarrow> j < length ys \<Longrightarrow>
   2 * j + 1 < length xs \<and> ys ! j = H [xs ! (2 * j), xs ! (2 * j + 1)]"
proof (induction H xs arbitrary: ys j rule: nextLevel.induct)
  case (1 H)
  then show ?case by simp
next
  case (2 H l)
  then show ?case by simp
next
  case (3 H l r rest)
  from "3.prems"(1) obtain zs where zs: "nextLevel H rest = Some zs"
    and ys: "ys = F_toObject (H [F_e l, F_e r]) # zs"
    by auto
  from "3.prems"(2) have c: "0 \<le> l" "l < bn254_r" "0 \<le> r" "r < bn254_r" "canon rest"
    by (simp_all add: canon_Cons)
  show ?case
  proof (cases j)
    case 0
    then show ?thesis by (simp add: ys F_toObject_def F_e_canon c)
  next
    case (Suc j')
    with "3.prems"(3) have "j' < length zs" by (simp add: ys)
    from "3.IH" [OF zs c(5) this] show ?thesis by (simp add: ys Suc)
  qed
qed

lemma at_Cons_Suc: "at (x # xs) (Suc i) = at xs i"
  by (simp add: at_def)

lemma walkUp_shift: "walkUp (x # lvs) (Suc level) n idx = walkUp lvs level n idx"
  by (induction n arbitrary: level idx) (simp_all add: at_Cons_Suc Let_def cong: option.case_cong)

lemma DualMux_left:
  "0 \<le> h \<Longrightarrow> h < bn254_r \<Longrightarrow> 0 \<le> e \<Longrightarrow> e < bn254_r \<Longrightarrow> DualMux h e 0 = Some (h, e)"
  by (simp add: DualMux_def)

lemma DualMux_right:
  "0 \<le> h \<Longrightarrow> h < bn254_r \<Longrightarrow> 0 \<le> e \<Longrightarrow> e < bn254_r \<Longrightarrow> DualMux h e 1 = Some (e, h)"
  by (simp add: DualMux_def)


lemma MerkleTreeProof_step:
  assumes h: "0 \<le> h" "h < bn254_r" and e: "0 \<le> e" "e < bn254_r"
  shows "MerkleTreeProof H h (e # es) (0 # ss) = MerkleTreeProof H (H [h, e]) es ss"
    and "MerkleTreeProof H h (e # es) (1 # ss) = MerkleTreeProof H (H [e, h]) es ss"
  using bn254_r_gt1
  by (simp_all add: DualMux_left [OF h e] DualMux_right [OF h e] MerkleLevel_def)

lemma dense_walk:
  assumes fh: "fieldHash H"
  shows "length xs = 2 ^ k \<Longrightarrow> canon xs \<Longrightarrow> i < 2 ^ k \<Longrightarrow> buildLevels H k xs = Some upper \<Longrightarrow>
     \<exists>sibs bits. walkUp (xs # upper) 0 k i = Some (map (toStringRadix 10) sibs, bits) \<and>
        length sibs = k \<and> length bits = k \<and> canon sibs \<and> set bits \<subseteq> {0, 1} \<and>
        pathPosition bits = i \<and>
        length (last (xs # upper)) = 1 \<and> canon (last (xs # upper)) \<and>
        (\<forall>re ri. MerkleTreeProof H (xs ! i) (sibs @ re) (map int bits @ ri) =
                  MerkleTreeProof H (last (xs # upper) ! 0) re ri)"
proof (induction k arbitrary: xs i upper)
  case 0
  then show ?case by (simp add: canon_def)
next
  case (Suc k)
  from Suc.prems(1) have ev: "even (length xs)" by simp
  from nextLevel_even [OF ev, of H] obtain nxt where nxt: "nextLevel H xs = Some nxt"
    and len_nxt: "length nxt = 2 ^ k"
    using Suc.prems(1) by auto
  from Suc.prems(4) nxt obtain upper' where up: "upper = nxt # upper'"
    and bl: "buildLevels H k nxt = Some upper'"
    by auto
  have c_nxt: "canon nxt" by (rule nextLevel_canon [OF fh nxt])
  have j: "i div 2 < 2 ^ k" using Suc.prems(3) by simp
  from Suc.IH [OF len_nxt c_nxt j bl] obtain sibs bits where
    w: "walkUp (nxt # upper') 0 k (i div 2) = Some (map (toStringRadix 10) sibs, bits)"
    and l: "length sibs = k" "length bits = k" and cs: "canon sibs" and bs: "set bits \<subseteq> {0, 1}"
    and pos: "pathPosition bits = i div 2"
    and top: "length (last (nxt # upper')) = 1" "canon (last (nxt # upper'))"
    and fold: "\<And>re ri. MerkleTreeProof H (nxt ! (i div 2)) (sibs @ re) (map int bits @ ri) =
                  MerkleTreeProof H (last (nxt # upper') ! 0) re ri"
    by blast
  have i_lt: "i < length xs" using Suc.prems(1,3) by simp
  from nextLevel_nth [OF nxt Suc.prems(2), of "i div 2"] j len_nxt
  have pair: "2 * (i div 2) + 1 < length xs"
    "nxt ! (i div 2) = H [xs ! (2 * (i div 2)), xs ! (2 * (i div 2) + 1)]"
    by simp_all
  define sib where "sib = (if i mod 2 = 1 then i - 1 else i + 1)"
  define b :: nat where "b = (if i mod 2 = 1 then 1 else 0)"
  have sib_lt: "sib < length xs"
    using pair(1) unfolding sib_def by presburger
  have c_i: "0 \<le> xs ! i" "xs ! i < bn254_r"
    using canon_nth [OF Suc.prems(2) i_lt] by simp_all
  have c_s: "0 \<le> xs ! sib" "xs ! sib < bn254_r"
    using canon_nth [OF Suc.prems(2) sib_lt] by simp_all
  have walk: "walkUp (xs # upper) 0 (Suc k) i =
              Some (map (toStringRadix 10) (xs ! sib # sibs), b # bits)"
    using sib_lt w
    by (simp add: up Let_def at_def walkUp_shift sib_def b_def)
  have step: "MerkleTreeProof H (xs ! i) ((xs ! sib # sibs) @ re) (map int (b # bits) @ ri) =
              MerkleTreeProof H (nxt ! (i div 2)) (sibs @ re) (map int bits @ ri)" for re ri
  proof (cases "i mod 2 = 1")
    case True
    then have "2 * (i div 2) = i - 1" "2 * (i div 2) + 1 = i" by presburger+
    with pair(2) have "nxt ! (i div 2) = H [xs ! sib, xs ! i]"
      using True by (simp add: sib_def)
    then have n: "nxt ! (i div 2) = H [xs ! sib, xs ! i]" .
    have "MerkleTreeProof H (xs ! i) ((xs ! sib # sibs) @ re) (map int (b # bits) @ ri) =
          MerkleTreeProof H (xs ! i) (xs ! sib # (sibs @ re)) (1 # (map int bits @ ri))"
      using True by (simp add: b_def del: MerkleTreeProof.simps)
    also have "\<dots> = MerkleTreeProof H (H [xs ! sib, xs ! i]) (sibs @ re) (map int bits @ ri)"
      by (rule MerkleTreeProof_step(2) [OF c_i c_s])
    finally show ?thesis by (simp only: n)
  next
    case False
    then have "2 * (i div 2) = i" "2 * (i div 2) + 1 = i + 1" by presburger+
    with pair(2) have "nxt ! (i div 2) = H [xs ! i, xs ! sib]"
      using False by (simp add: sib_def)
    then have n: "nxt ! (i div 2) = H [xs ! i, xs ! sib]" .
    have "MerkleTreeProof H (xs ! i) ((xs ! sib # sibs) @ re) (map int (b # bits) @ ri) =
          MerkleTreeProof H (xs ! i) (xs ! sib # (sibs @ re)) (0 # (map int bits @ ri))"
      using False by (simp add: b_def del: MerkleTreeProof.simps)
    also have "\<dots> = MerkleTreeProof H (H [xs ! i, xs ! sib]) (sibs @ re) (map int bits @ ri)"
      by (rule MerkleTreeProof_step(1) [OF c_i c_s])
    finally show ?thesis by (simp only: n)
  qed
  have "canon (xs ! sib # sibs)" using cs c_s by (simp add: canon_Cons)
  moreover have "set (b # bits) \<subseteq> {0, 1}" using bs by (auto simp: b_def)
  moreover have "pathPosition (b # bits) = i"
    unfolding pathPosition.simps pos b_def by presburger
  moreover have "last (xs # upper) = last (nxt # upper')" by (simp add: up)
  ultimately show ?case
    using walk l top fold step
    by (intro exI [of _ "xs ! sib # sibs"] exI [of _ "b # bits"]) simp
qed


lemma length_zerosFrom: "length (zerosFrom H n z) = Suc n"
  by (induction n arbitrary: z) simp_all

lemma canon_zerosFrom:
  "fieldHash H \<Longrightarrow> 0 \<le> z \<Longrightarrow> z < bn254_r \<Longrightarrow> canon (zerosFrom H n z)"
proof (induction n arbitrary: z)
  case 0
  then show ?case by (simp add: canon_def)
next
  case (Suc n)
  from Suc.prems(1) have "0 \<le> H [F_e z, F_e z]" "H [F_e z, F_e z] < bn254_r"
    by (simp_all add: fieldHash_def)
  from Suc.IH [OF Suc.prems(1) this] Suc.prems(2,3) show ?case
    by (simp add: canon_Cons F_toObject_def)
qed

lemma extension:
  assumes fh: "fieldHash H" and cz: "canon zeros"
  shows "level + n \<le> length zeros \<Longrightarrow> 0 \<le> root \<Longrightarrow> root < bn254_r \<Longrightarrow>
     \<exists>ext. extendRoot H zeros level n root = Some ext \<and> 0 \<le> ext \<and> ext < bn254_r \<and>
        zeroPath zeros level n =
          Some (map (toStringRadix 10) (take n (drop level zeros)), replicate n 0) \<and>
        MerkleTreeProof H root (take n (drop level zeros)) (replicate n 0) = Some ext"
proof (induction n arbitrary: level root)
  case 0
  then show ?case by simp
next
  case (Suc n)
  from Suc.prems(1) have lt: "level < length zeros" by simp
  let ?z = "zeros ! level"
  have cz': "0 \<le> ?z" "?z < bn254_r" using canon_nth [OF cz lt] by simp_all
  let ?root = "H [root, ?z]"
  from fh have cr: "0 \<le> ?root" "?root < bn254_r" by (simp_all add: fieldHash_def)
  from Suc.prems(1) have le: "Suc level + n \<le> length zeros" by simp
  from Suc.IH [OF le cr] obtain ext where
    e: "extendRoot H zeros (Suc level) n ?root = Some ext" "0 \<le> ext" "ext < bn254_r"
    and zp: "zeroPath zeros (Suc level) n =
          Some (map (toStringRadix 10) (take n (drop (Suc level) zeros)), replicate n 0)"
    and mp: "MerkleTreeProof H ?root (take n (drop (Suc level) zeros)) (replicate n 0) = Some ext"
    by blast
  have dr: "take (Suc n) (drop level zeros) = ?z # take n (drop (Suc level) zeros)"
    using lt by (simp flip: Cons_nth_drop_Suc)
  have 1: "extendRoot H zeros level (Suc n) root = Some ext"
    using e(1) lt by (simp add: at_def F_toObject_def F_e_canon Suc.prems(2,3) cz')
  have 2: "zeroPath zeros level (Suc n) =
          Some (map (toStringRadix 10) (take (Suc n) (drop level zeros)), replicate (Suc n) 0)"
    using zp lt by (simp add: at_def dr)
  have "MerkleTreeProof H root (?z # take n (drop (Suc level) zeros)) (0 # replicate n 0) =
        MerkleTreeProof H ?root (take n (drop (Suc level) zeros)) (replicate n 0)"
    by (rule MerkleTreeProof_step(1) [OF Suc.prems(2,3) cz'])
  with mp have 3: "MerkleTreeProof H root (take (Suc n) (drop level zeros)) (replicate (Suc n) 0) =
        Some ext"
    by (simp only: dr replicate_Suc)
  from 1 2 3 e(2,3) show ?case by blast
qed

lemma those_BigInt_toString:
  "canon xs \<Longrightarrow> those (map BigInt (map (toStringRadix 10) xs)) = Some xs"
proof (induction xs)
  case Nil
  then show ?case by simp
next
  case (Cons x xs)
  then have "0 \<le> x" "canon xs" by (simp_all add: canon_Cons)
  then have "BigInt (toStringRadix 10 x) = Some x"
    using BigInt_toString_nat [of "nat x"] by simp
  with Cons.IH [OF \<open>canon xs\<close>] show ?case by simp
qed

lemma those_hashed:
  "fieldHash H \<Longrightarrow> \<forall>p \<in> set ps. BigInt p \<noteq> None \<Longrightarrow>
   \<exists>hs. those (map (\<lambda>p. map_option (\<lambda>n. F_toObject (H [F_e n])) (BigInt p)) ps) = Some hs \<and>
        length hs = length ps \<and> canon hs \<and>
        hs = map (\<lambda>p. F_toObject (H [F_e (the (BigInt p))])) ps"
proof (induction ps)
  case Nil
  then show ?case by (simp add: canon_def)
next
  case (Cons p ps)
  then obtain hs where hs: "those (map (\<lambda>p. map_option (\<lambda>n. F_toObject (H [F_e n])) (BigInt p)) ps) = Some hs"
    "length hs = length ps" "canon hs"
    "hs = map (\<lambda>p. F_toObject (H [F_e (the (BigInt p))])) ps"
    by auto
  from Cons.prems(2) obtain n where n: "BigInt p = Some n" by auto
  from Cons.prems(1) have "0 \<le> H [F_e n]" "H [F_e n] < bn254_r"
    by (simp_all add: fieldHash_def)
  with hs n show ?case by (simp add: canon_Cons F_toObject_def)
qed

lemma those_hashed_None:
  "\<exists>p \<in> set ps. BigInt p = None \<Longrightarrow>
   those (map (\<lambda>p. map_option (\<lambda>n. F_toObject (H [F_e n])) (BigInt p)) ps) = None"
  by (induction ps) (auto split: option.splits)


lemma buildLevels_total:
  "length xs = 2 ^ k \<Longrightarrow> \<exists>upper. buildLevels H k xs = Some upper"
proof (induction k arbitrary: xs)
  case 0
  then show ?case by simp
next
  case (Suc k)
  then have "even (length xs)" by simp
  from nextLevel_even [OF this, of H] Suc.prems obtain nxt where
    "nextLevel H xs = Some nxt" "length nxt = 2 ^ k"
    by auto
  with Suc.IH [of nxt] show ?case by auto
qed

lemma map_F_e_canon: "canon xs \<Longrightarrow> map F_e xs = xs"
  by (induction xs) (simp_all add: canon_Cons F_e_canon)

lemma map_F_e_bits: "set bits \<subseteq> {0, 1} \<Longrightarrow> map (\<lambda>i. F_e (int i)) bits = map int bits"
proof (induction bits)
  case Nil
  then show ?case by simp
next
  case (Cons b bits)
  then have "b = 0 \<or> b = 1" by simp
  then have "F_e (int b) = int b"
    using bn254_r_gt1 by (auto simp: F_e_def)
  with Cons show ?case by simp
qed

lemma canon_append: "canon (xs @ ys) \<longleftrightarrow> canon xs \<and> canon ys"
  by (auto simp: canon_def)

lemma canon_take_drop: "canon xs \<Longrightarrow> canon (take n (drop k xs))"
  by (auto simp: canon_def dest: in_set_takeD in_set_dropD)

lemma pathPosition_zeros: "pathPosition (bs @ replicate n 0) = pathPosition bs"
proof (induction bs)
  case Nil
  show ?case by (induction n) simp_all
next
  case (Cons b bs)
  then show ?case by simp
qed

lemma makeProof_verifies:
  assumes fh: "fieldHash H"
    and len: "length leaves = 2 ^ d" and cl: "canon leaves" and d: "d \<le> 20"
    and bl: "buildLevels H d leaves = Some upper"
    and i: "i < 2 ^ d"
    and ext: "extendRoot H (zerosFrom H TREE_DEPTH 0) d (TREE_DEPTH - d)
                (last (leaves # upper) ! 0) = Some ext"
  shows "\<exists>prf els. makeProof (leaves # upper) (zerosFrom H TREE_DEPTH 0) leaves d i = Some prf \<and>
           idHash prf = toStringRadix 10 (leaves ! i) \<and>
           length (pathElements prf) = 20 \<and> length (pathIndices prf) = 20 \<and>
           set (pathIndices prf) \<subseteq> {0, 1} \<and> pathPosition (pathIndices prf) = i \<and>
           those (map BigInt (pathElements prf)) = Some els \<and>
           BigInt (toStringRadix 10 ext) = Some ext \<and>
           MerkleTreeProof H (leaves ! i) els (map int (pathIndices prf)) = Some ext \<and>
           verifyInclusion H prf (toStringRadix 10 ext)"
proof -
  let ?zeros = "zerosFrom H TREE_DEPTH 0"
  define root0 where "root0 = last (leaves # upper) ! 0"
  from dense_walk [OF fh len cl i bl] obtain sibs bits where
    w: "walkUp (leaves # upper) 0 d i = Some (map (toStringRadix 10) sibs, bits)"
    and l: "length sibs = d" "length bits = d" and cs: "canon sibs" and bs: "set bits \<subseteq> {0, 1}"
    and pos: "pathPosition bits = i"
    and top: "length (last (leaves # upper)) = 1" "canon (last (leaves # upper))"
    and fold: "\<And>re ri. MerkleTreeProof H (leaves ! i) (sibs @ re) (map int bits @ ri) =
                  MerkleTreeProof H root0 re ri"
    unfolding root0_def by blast
  have cz: "canon ?zeros"
    using bn254_r_gt1 by (intro canon_zerosFrom [OF fh]) simp_all
  have lz: "d + (TREE_DEPTH - d) \<le> length ?zeros"
    using d by (simp add: length_zerosFrom TREE_DEPTH_def)
  have "0 < length (last (leaves # upper))" using top(1) by (metis zero_less_one)
  from canon_nth [OF top(2) this] have cr: "0 \<le> root0" "root0 < bn254_r"
    unfolding root0_def by blast+
  note ext' = ext [folded root0_def]
  let ?zs = "take (TREE_DEPTH - d) (drop d ?zeros)"
  from extension [OF fh cz lz cr] ext' have
    zp: "zeroPath ?zeros d (TREE_DEPTH - d) =
          Some (map (toStringRadix 10) ?zs, replicate (TREE_DEPTH - d) 0)"
    and mp: "MerkleTreeProof H root0 ?zs (replicate (TREE_DEPTH - d) 0) = Some ext"
    and ce: "0 \<le> ext" "ext < bn254_r"
    by auto
  have lzs: "length ?zs = 20 - d"
    using d by (simp add: length_zerosFrom TREE_DEPTH_def)
  have czs: "canon ?zs" by (rule canon_take_drop [OF cz])
  have ilt: "i < length leaves" using i len by simp
  have ci: "0 \<le> leaves ! i" "leaves ! i < bn254_r"
    using canon_nth [OF cl ilt] by simp_all
  define pf where "pf = \<lparr>idHash = toStringRadix 10 (leaves ! i),
                          pathElements = map (toStringRadix 10) (sibs @ ?zs),
                          pathIndices = bits @ replicate (TREE_DEPTH - d) 0\<rparr>"
  have mk: "makeProof (leaves # upper) ?zeros leaves d i = Some pf"
    using ilt by (simp add: makeProof_def w zp at_def pf_def)
  have p1: "BigInt (idHash pf) = Some (leaves ! i)"
    using BigInt_toString_nat [of "nat (leaves ! i)"] ci(1) by (simp add: pf_def)
  have p2: "those (map BigInt (pathElements pf)) = Some (sibs @ ?zs)"
    unfolding pf_def MerkleProof.simps
    by (rule those_BigInt_toString) (simp add: canon_append cs czs)
  have p3: "BigInt (toStringRadix 10 ext) = Some ext"
    using BigInt_toString_nat [of "nat ext"] ce(1) by simp
  have idx: "map (\<lambda>i. F_e (int i)) (pathIndices pf) =
             map int bits @ replicate (TREE_DEPTH - d) 0"
    using map_F_e_bits [OF bs] by (simp add: pf_def F_e_def)
  have els: "map F_e (sibs @ ?zs) = sibs @ ?zs"
    by (rule map_F_e_canon) (simp add: canon_append cs czs)
  have run: "MerkleTreeProof H (leaves ! i) (sibs @ ?zs)
               (map int bits @ replicate (TREE_DEPTH - d) 0) = Some ext"
    by (simp only: fold mp)
  have lens: "length (pathElements pf) = 20" "length (pathIndices pf) = 20"
    using d by (simp_all add: pf_def l TREE_DEPTH_def length_zerosFrom)
  have "verifyInclusion H pf (toStringRadix 10 ext)"
    unfolding verifyInclusion_def p1 p2 p3 prod.case option.case idx els
      F_e_canon [OF ci] F_e_canon [OF ce] MerkleTreeVerifier_def run
    using d by (simp add: l lzs TREE_DEPTH_def length_zerosFrom)
  moreover have "idHash pf = toStringRadix 10 (leaves ! i)" by (simp add: pf_def)
  moreover have "set (pathIndices pf) \<subseteq> {0, 1}" using bs by (auto simp: pf_def)
  moreover have "pathPosition (pathIndices pf) = i"
    using pos by (simp add: pf_def pathPosition_zeros)
  moreover have "MerkleTreeProof H (leaves ! i) (sibs @ ?zs) (map int (pathIndices pf)) = Some ext"
    using run by (simp add: pf_def)
  ultimately show ?thesis using mk lens p2 p3 by blast
qed


lemma those_map_Some:
  "\<forall>x \<in> set xs. \<exists>y. f x = Some y \<Longrightarrow> those (map f xs) = Some (map (\<lambda>x. the (f x)) xs)"
  by (induction xs) auto

lemma map_of_zip_upt:
  "length ps = n \<Longrightarrow> i < n \<Longrightarrow> map_of (zip [0..<n] ps) i = Some (ps ! i)"
  using map_of_zip_nth [of "[0..<n]" ps i] by simp

lemma treeNode_cong:
  "(\<And>m. j * 2 ^ l \<le> m \<Longrightarrow> m < (j + 1) * 2 ^ l \<Longrightarrow> f m = g m) \<Longrightarrow>
   treeNode H f l j = treeNode H g l j"
proof (induction l arbitrary: j)
  case 0
  then show ?case by simp
next
  case (Suc l)
  have a: "treeNode H f l (2 * j) = treeNode H g l (2 * j)"
  proof (rule Suc.IH)
    fix m assume "2 * j * 2 ^ l \<le> m" "m < (2 * j + 1) * 2 ^ l"
    then have "j * 2 ^ Suc l \<le> m" "m < (j + 1) * 2 ^ Suc l"
      by (simp_all add: algebra_simps)
    then show "f m = g m" by (rule Suc.prems)
  qed
  have b: "treeNode H f l (2 * j + 1) = treeNode H g l (2 * j + 1)"
  proof (rule Suc.IH)
    fix m assume "(2 * j + 1) * 2 ^ l \<le> m" "m < (2 * j + 1 + 1) * 2 ^ l"
    then have "j * 2 ^ Suc l \<le> m" "m < (j + 1) * 2 ^ Suc l"
      by (simp_all add: algebra_simps)
    then show "f m = g m" by (rule Suc.prems)
  qed
  show ?case by (simp only: treeNode.simps a b)
qed

lemma treeNode_shift:
  "treeNode H f (Suc l) j = treeNode H (\<lambda>m. H [f (2 * m), f (2 * m + 1)]) l j"
proof (induction l arbitrary: j)
  case 0
  show ?case by simp
next
  case (Suc l)
  have "treeNode H f (Suc (Suc l)) j =
        H [treeNode H f (Suc l) (2 * j), treeNode H f (Suc l) (2 * j + 1)]"
    by (simp only: treeNode.simps)
  also have "\<dots> = H [treeNode H (\<lambda>m. H [f (2 * m), f (2 * m + 1)]) l (2 * j),
                     treeNode H (\<lambda>m. H [f (2 * m), f (2 * m + 1)]) l (2 * j + 1)]"
    by (simp only: Suc.IH)
  also have "\<dots> = treeNode H (\<lambda>m. H [f (2 * m), f (2 * m + 1)]) (Suc l) j"
    by (simp only: treeNode.simps)
  finally show ?case .
qed

lemma dense_root:
  assumes fh: "fieldHash H"
  shows "length xs = 2 ^ k \<Longrightarrow> canon xs \<Longrightarrow> buildLevels H k xs = Some upper \<Longrightarrow>
     last (xs # upper) ! 0 = treeNode H (\<lambda>m. xs ! m) k 0"
proof (induction k arbitrary: xs upper)
  case 0
  then show ?case by simp
next
  case (Suc k)
  from Suc.prems(1) have ev: "even (length xs)" by simp
  from nextLevel_even [OF ev, of H] obtain nxt where nxt: "nextLevel H xs = Some nxt"
    and len_nxt: "length nxt = 2 ^ k"
    using Suc.prems(1) by auto
  from Suc.prems(3) nxt obtain upper' where up: "upper = nxt # upper'"
    and bl: "buildLevels H k nxt = Some upper'"
    by auto
  have c_nxt: "canon nxt" by (rule nextLevel_canon [OF fh nxt])
  have "last (xs # upper) ! 0 = last (nxt # upper') ! 0" by (simp add: up)
  also have "\<dots> = treeNode H (\<lambda>m. nxt ! m) k 0"
    by (rule Suc.IH [OF len_nxt c_nxt bl])
  also have "\<dots> = treeNode H (\<lambda>m. H [xs ! (2 * m), xs ! (2 * m + 1)]) k 0"
  proof (rule treeNode_cong)
    fix m :: nat assume "m < (0 + 1) * 2 ^ k"
    then have "m < length nxt" by (simp add: len_nxt)
    from nextLevel_nth [OF nxt Suc.prems(2) this]
    show "nxt ! m = H [xs ! (2 * m), xs ! (2 * m + 1)]" by simp
  qed
  also have "\<dots> = treeNode H (\<lambda>m. xs ! m) (Suc k) 0"
    by (simp only: treeNode_shift)
  finally show ?case .
qed

lemma zerosFrom_nth:
  assumes fh: "fieldHash H"
  shows "l \<le> n \<Longrightarrow> 0 \<le> z \<Longrightarrow> z < bn254_r \<Longrightarrow>
         zerosFrom H n z ! l = treeNode H (\<lambda>m. z) l j"
proof (induction n arbitrary: z l j)
  case 0
  then show ?case by simp
next
  case (Suc n)
  show ?case
  proof (cases l)
    case 0
    then show ?thesis by simp
  next
    case (Suc l')
    from fh have c: "0 \<le> H [z, z]" "H [z, z] < bn254_r" by (simp_all add: fieldHash_def)
    have "zerosFrom H (Suc n) z ! l = zerosFrom H n (H [z, z]) ! l'"
      using Suc.prems(2,3) by (simp add: Suc F_toObject_def F_e_canon)
    also have "\<dots> = treeNode H (\<lambda>m. H [z, z]) l' j"
      using Suc.prems(1) Suc by (intro Suc.IH c) simp
    also have "\<dots> = treeNode H (\<lambda>m. z) (Suc l') j"
      by (simp only: treeNode_shift)
    finally show ?thesis by (simp only: Suc)
  qed
qed

lemma extendRoot_treeNode:
  assumes fh: "fieldHash H"
    and zero: "\<And>m. 2 ^ d \<le> m \<Longrightarrow> f m = 0"
  shows "d \<le> level \<Longrightarrow> level + n \<le> N \<Longrightarrow> root = treeNode H f level 0 \<Longrightarrow>
         0 \<le> root \<Longrightarrow> root < bn254_r \<Longrightarrow>
         extendRoot H (zerosFrom H N 0) level n root = Some ext \<Longrightarrow>
         ext = treeNode H f (level + n) 0"
proof (induction n arbitrary: level root)
  case 0
  then show ?case by simp
next
  case (Suc n)
  let ?zeros = "zerosFrom H N 0"
  from Suc.prems(2) have lt: "level < length ?zeros" by (simp add: length_zerosFrom)
  let ?z = "?zeros ! level"
  have z: "?z = treeNode H (\<lambda>m. 0) level 1"
    using Suc.prems(2) bn254_r_gt1 by (intro zerosFrom_nth [OF fh]) simp_all
  have cz: "canon ?zeros" using bn254_r_gt1 by (intro canon_zerosFrom [OF fh]) simp_all
  have cz': "0 \<le> ?z" "?z < bn254_r" using canon_nth [OF cz lt] by simp_all
  let ?root = "H [root, ?z]"
  from fh have cr: "0 \<le> ?root" "?root < bn254_r" by (simp_all add: fieldHash_def)
  have "treeNode H (\<lambda>m. 0) level 1 = treeNode H f level 1"
  proof (rule treeNode_cong)
    fix m :: nat assume "1 * 2 ^ level \<le> m"
    then have "2 ^ level \<le> m" by simp
    moreover have "(2 :: nat) ^ d \<le> 2 ^ level"
      using Suc.prems(1) by (intro power_increasing) simp_all
    ultimately have "2 ^ d \<le> m" by (rule le_trans [rotated])
    then show "0 = f m" by (simp add: zero)
  qed
  with z have z': "?z = treeNode H f level 1" by simp
  have r': "?root = treeNode H f (Suc level) 0"
    by (simp add: Suc.prems(3) z')
  have e: "extendRoot H ?zeros (Suc level) n ?root = Some ext"
    using Suc.prems(6) lt
    by (simp add: at_def F_toObject_def F_e_canon Suc.prems(4,5) cz')
  have "ext = treeNode H f (Suc level + n) 0"
    using Suc.prems(1,2) by (intro Suc.IH [OF _ _ r' cr e]) simp_all
  then show ?case by simp
qed

lemma whitelist_build:
  assumes fh: "fieldHash poseidon"
    and n: "length participants \<le> 2 ^ 20"
    and parse: "\<forall>p \<in> set participants. BigInt p \<noteq> None"
  shows "\<exists>root proofs.
           buildWhitelistTree poseidon participants = Some (root, proofs) \<and>
           BigInt root = Some (treeNode poseidon (whitelistLeaf poseidon participants) 20 0) \<and>
           (\<forall>i < length participants.
              \<exists>prf id els rt. proofs i = Some prf \<and>
                    BigInt (participants ! i) = Some id \<and>
                    idHash prf = toStringRadix 10 (F_toObject (poseidon [F_e id])) \<and>
                    length (pathElements prf) = 20 \<and> length (pathIndices prf) = 20 \<and>
                    set (pathIndices prf) \<subseteq> {0, 1} \<and> pathPosition (pathIndices prf) = i \<and>
                    those (map BigInt (pathElements prf)) = Some els \<and>
                    BigInt root = Some rt \<and>
                    MerkleTreeProof poseidon (poseidon [F_e id]) els
                      (map int (pathIndices prf)) = Some rt \<and>
                    verifyInclusion poseidon prf root)"
proof -
  from those_hashed [OF fh parse] obtain hs where
    hs: "those (map (\<lambda>p. map_option (\<lambda>n. F_toObject (poseidon [F_e n])) (BigInt p))
           participants) = Some hs"
    and lhs: "length hs = length participants" and chs: "canon hs"
    and hs_eq: "hs = map (\<lambda>p. F_toObject (poseidon [F_e (the (BigInt p))])) participants"
    by blast
  define d where "d = actualDepthOf (length hs)"
  define leaves where "leaves = hs @ replicate (2 ^ d - length hs) 0"
  define zeros where "zeros = zerosFrom poseidon TREE_DEPTH 0"
  have d20: "d \<le> 20" and nd: "length hs \<le> 2 ^ d"
    using actualDepthOf_props(2,3) [of "length hs"] n by (simp_all add: d_def lhs)
  have len: "length leaves = 2 ^ d" using nd by (simp add: leaves_def)
  have cl: "canon leaves"
    using chs bn254_r_gt1 by (auto simp: leaves_def canon_def)
  from buildLevels_total [OF len, of poseidon] obtain upper where
    bl: "buildLevels poseidon d leaves = Some upper"
    by blast
  define root0 where "root0 = last (leaves # upper) ! 0"
  have i0: "0 < (2 :: nat) ^ d" by simp
  from dense_walk [OF fh len cl i0 bl] have
    top: "length (last (leaves # upper)) = 1" "canon (last (leaves # upper))"
    by blast+
  have at0: "at (last (leaves # upper)) 0 = Some root0"
    using top(1) by (simp only: at_def root0_def) simp
  have "0 < length (last (leaves # upper))" using top(1) by (metis zero_less_one)
  from canon_nth [OF top(2) this] have cr: "0 \<le> root0" "root0 < bn254_r"
    unfolding root0_def by blast+
  have cz: "canon zeros"
    unfolding zeros_def using bn254_r_gt1 by (intro canon_zerosFrom [OF fh]) simp_all
  have lz: "d + (TREE_DEPTH - d) \<le> length zeros"
    using d20 by (simp add: zeros_def length_zerosFrom TREE_DEPTH_def)
  from extension [OF fh cz lz cr] obtain ext where
    ext: "extendRoot poseidon zeros d (TREE_DEPTH - d) root0 = Some ext"
    by blast
  have hs_leaf: "hs ! m = whitelistLeaf poseidon participants m" if "m < length hs" for m
  proof -
    from that lhs have m: "m < length participants" by simp
    with parse obtain k where "BigInt (participants ! m) = Some k"
      by (metis nth_mem not_Some_eq)
    with m show ?thesis by (simp add: hs_eq whitelistLeaf_def)
  qed
  have leaf_zero: "whitelistLeaf poseidon participants m = 0" if "2 ^ d \<le> m" for m
    using that nd lhs by (simp add: whitelistLeaf_def)
  have "root0 = treeNode poseidon (\<lambda>m. leaves ! m) d 0"
    unfolding root0_def by (rule dense_root [OF fh len cl bl])
  also have "\<dots> = treeNode poseidon (whitelistLeaf poseidon participants) d 0"
  proof (rule treeNode_cong)
    fix m :: nat assume "m < (0 + 1) * 2 ^ d"
    then have m: "m < 2 ^ d" by simp
    show "leaves ! m = whitelistLeaf poseidon participants m"
    proof (cases "m < length hs")
      case True
      then show ?thesis by (simp add: leaves_def nth_append hs_leaf)
    next
      case False
      with m lhs show ?thesis by (simp add: leaves_def nth_append whitelistLeaf_def)
    qed
  qed
  finally have root0_node: "root0 = treeNode poseidon (whitelistLeaf poseidon participants) d 0" .
  have lz': "d + (TREE_DEPTH - d) \<le> TREE_DEPTH"
    using d20 by (simp add: TREE_DEPTH_def)
  have "ext = treeNode poseidon (whitelistLeaf poseidon participants) (d + (TREE_DEPTH - d)) 0"
    by (rule extendRoot_treeNode [OF fh leaf_zero le_refl lz' root0_node cr
          ext [unfolded zeros_def]])
  then have ext_node: "ext = treeNode poseidon (whitelistLeaf poseidon participants) 20 0"
    using d20 by (simp add: TREE_DEPTH_def)
  have "0 < length (last (leaves # upper))" using top(1) by (metis zero_less_one)
  from extension [OF fh cz lz cr] ext have ce: "0 \<le> ext" by auto
  have root_read: "BigInt (toStringRadix 10 ext) =
      Some (treeNode poseidon (whitelistLeaf poseidon participants) 20 0)"
    using BigInt_toString_nat [of "nat ext"] ce by (simp add: ext_node)
  define good where "good = (\<lambda>i (prf :: MerkleProof). \<exists>id els rt.
      BigInt (participants ! i) = Some id \<and>
      idHash prf = toStringRadix 10 (F_toObject (poseidon [F_e id])) \<and>
      length (pathElements prf) = 20 \<and> length (pathIndices prf) = 20 \<and>
      set (pathIndices prf) \<subseteq> {0, 1} \<and> pathPosition (pathIndices prf) = i \<and>
      those (map BigInt (pathElements prf)) = Some els \<and>
      BigInt (toStringRadix 10 ext) = Some rt \<and>
      MerkleTreeProof poseidon (poseidon [F_e id]) els (map int (pathIndices prf)) = Some rt \<and>
      verifyInclusion poseidon prf (toStringRadix 10 ext))"
  have each: "\<exists>prf. makeProof (leaves # upper) zeros leaves d i = Some prf \<and> good i prf"
    if "i < length participants" for i
  proof -
    from that nd lhs have "i < 2 ^ d" by simp
    from makeProof_verifies [OF fh len cl d20 bl this ext [unfolded zeros_def root0_def]]
    obtain pf els where
      mk: "makeProof (leaves # upper) zeros leaves d i = Some pf"
      and pr: "idHash pf = toStringRadix 10 (leaves ! i)"
        "length (pathElements pf) = 20" "length (pathIndices pf) = 20"
        "set (pathIndices pf) \<subseteq> {0, 1}" "pathPosition (pathIndices pf) = i"
        "those (map BigInt (pathElements pf)) = Some els"
        "BigInt (toStringRadix 10 ext) = Some ext"
        "MerkleTreeProof poseidon (leaves ! i) els (map int (pathIndices pf)) = Some ext"
        "verifyInclusion poseidon pf (toStringRadix 10 ext)"
      unfolding zeros_def by blast
    from parse that obtain k where id: "BigInt (participants ! i) = Some k"
      by (metis nth_mem not_Some_eq)
    have "leaves ! i = hs ! i" using that lhs by (simp add: leaves_def nth_append)
    also have "\<dots> = F_toObject (poseidon [F_e k])"
      using that id by (simp add: hs_eq)
    finally have leaf: "leaves ! i = F_toObject (poseidon [F_e k])" .
    have leaf': "leaves ! i = poseidon [F_e k]" using leaf by (simp add: F_toObject_def)
    have "good i pf"
      unfolding good_def using id pr(1) [unfolded leaf] pr(2-7) pr(8) [unfolded leaf'] pr(9)
      by blast
    with mk show ?thesis by blast
  qed
  define ps where "ps = map (\<lambda>i. the (makeProof (leaves # upper) zeros leaves d i))
                          [0..<length participants]"
  have those_ps: "those (map (makeProof (leaves # upper) zeros leaves d)
                           [0..<length participants]) = Some ps"
  proof -
    have "\<forall>i \<in> set [0..<length participants].
            \<exists>y. makeProof (leaves # upper) zeros leaves d i = Some y"
    proof
      fix i assume "i \<in> set [0..<length participants]"
      then have "i < length participants" by simp
      from each [OF this] show "\<exists>y. makeProof (leaves # upper) zeros leaves d i = Some y"
        by blast
    qed
    then show ?thesis unfolding ps_def by (rule those_map_Some)
  qed
  have build: "buildWhitelistTree poseidon participants =
               Some (toStringRadix 10 ext, map_of (zip [0..<length participants] ps))"
    unfolding buildWhitelistTree_def hs option.case Let_def
    by (simp only: d_def [symmetric] leaves_def [symmetric] zeros_def [symmetric]
          bl option.case at0 ext those_ps)
  have "\<exists>prf. map_of (zip [0..<length participants] ps) i = Some prf \<and> good i prf"
    if i: "i < length participants" for i
  proof -
    have "length ps = length participants" by (simp add: ps_def)
    from map_of_zip_upt [OF this i]
    have "map_of (zip [0..<length participants] ps) i =
          Some (the (makeProof (leaves # upper) zeros leaves d i))"
      using i by (simp add: ps_def)
    with each [OF i] show ?thesis by auto
  qed
  with build root_read show ?thesis unfolding good_def by blast
qed

lemma fieldHash_toyPoseidon: "fieldHash toyPoseidon"
proof -
  have "0 \<le> toyPoseidon xs \<and> toyPoseidon xs < bn254_r" for xs
  proof (cases xs rule: rev_cases)
    case Nil
    then show ?thesis by (simp add: toyPoseidon_def bn254_r_def)
  next
    case (snoc ys y)
    have "toyPoseidon xs < 1000003" "0 \<le> toyPoseidon xs"
      by (simp_all add: toyPoseidon_def snoc)
    then show ?thesis by (simp add: bn254_r_def)
  qed
  then show ?thesis by (simp add: fieldHash_def)
qed

lemma buildWhitelistTree_None:
  "\<exists>p \<in> set participants. BigInt p = None \<Longrightarrow> buildWhitelistTree poseidon participants = None"
  by (simp add: buildWhitelistTree_def those_hashed_None)

text \<open>
  C4. Let Poseidon return least residues of the field. For every list of at most
  \<open>2 ^ 20\<close> participant IDs, \<open>buildWhitelistTree\<close> returns a root and proofs unless
  \<open>BigInt\<close> throws on some ID. The root is the root of the full tree of depth 20 over
  the hashes of the IDs, padded with zero leaves. For every participant index \<open>i\<close> of the list the
  proof it returns for \<open>i\<close> carries as \<open>idHash\<close> the Poseidon hash of the \<open>i\<close>-th ID,
  has 20 path elements and 20 path indices, each index 0 or 1 and together spelling
  the position \<open>i\<close>; folding that leaf hash upward through the 20 levels, on the left
  or on the right of the sibling as the index says, gives the returned root; and the
  proof passes the inclusion check of the circuit against the returned root.
\<close>

theorem whitelist_proofs_verify:
  assumes fh: "fieldHash poseidon"
    and n: "length participants \<le> 2 ^ 20"
  shows "(buildWhitelistTree poseidon participants = None \<longleftrightarrow>
            (\<exists>p \<in> set participants. BigInt p = None)) \<and>
         (\<forall>root proofs.
            buildWhitelistTree poseidon participants = Some (root, proofs) \<longrightarrow>
            BigInt root = Some (treeNode poseidon (whitelistLeaf poseidon participants) 20 0)) \<and>
         (\<forall>root proofs i.
            buildWhitelistTree poseidon participants = Some (root, proofs) \<and>
            i < length participants \<longrightarrow>
            (\<exists>prf id els rt.
               proofs i = Some prf \<and>
               BigInt (participants ! i) = Some id \<and>
               idHash prf = toStringRadix 10 (F_toObject (poseidon [F_e id])) \<and>
               length (pathElements prf) = 20 \<and> length (pathIndices prf) = 20 \<and>
               set (pathIndices prf) \<subseteq> {0, 1} \<and> pathPosition (pathIndices prf) = i \<and>
               those (map BigInt (pathElements prf)) = Some els \<and>
               BigInt root = Some rt \<and>
               MerkleTreeProof poseidon (poseidon [F_e id]) els
                 (map int (pathIndices prf)) = Some rt \<and>
               verifyInclusion poseidon prf root))"
proof (cases "\<exists>p \<in> set participants. BigInt p = None")
  case True
  from buildWhitelistTree_None [OF this] True show ?thesis by simp
next
  case False
  then have "\<forall>p \<in> set participants. BigInt p \<noteq> None" by simp
  from whitelist_build [OF fh n this] False show ?thesis by auto
qed

theorem whitelist_proofs_verify_witness:
  "fieldHash toyPoseidon \<and> length [''1'', ''2'', ''3''] \<le> (2 :: nat) ^ 20 \<and>
   (\<exists>root proofs prf els rt.
      buildWhitelistTree toyPoseidon [''1'', ''2'', ''3''] = Some (root, proofs) \<and>
      BigInt root =
        Some (treeNode toyPoseidon (whitelistLeaf toyPoseidon [''1'', ''2'', ''3'']) 20 0) \<and>
      (1 :: nat) < length [''1'', ''2'', ''3''] \<and>
      proofs 1 = Some prf \<and>
      idHash prf = toStringRadix 10 (F_toObject (toyPoseidon [F_e 2])) \<and>
      length (pathElements prf) = 20 \<and> length (pathIndices prf) = 20 \<and>
      pathPosition (pathIndices prf) = 1 \<and>
      those (map BigInt (pathElements prf)) = Some els \<and>
      BigInt root = Some rt \<and>
      MerkleTreeProof toyPoseidon (toyPoseidon [F_e 2]) els (map int (pathIndices prf)) = Some rt \<and>
      verifyInclusion toyPoseidon prf root)"
proof -
  have n: "length [''1'', ''2'', ''3''] \<le> (2 :: nat) ^ 20" by simp
  have i: "(1 :: nat) < length [''1'', ''2'', ''3'']" by simp
  have p: "\<not> (\<exists>p \<in> set [''1'', ''2'', ''3'']. BigInt p = None)"
    by (simp add: BigInt_one_digit)
  have two: "BigInt ([''1'', ''2'', ''3''] ! 1) = Some 2"
    by (simp add: BigInt_one_digit)
  note w = whitelist_proofs_verify [OF fieldHash_toyPoseidon n]
  from w p have "buildWhitelistTree toyPoseidon [''1'', ''2'', ''3''] \<noteq> None"
    by blast
  then obtain root proofs
    where b: "buildWhitelistTree toyPoseidon [''1'', ''2'', ''3''] = Some (root, proofs)"
    by (cases "buildWhitelistTree toyPoseidon [''1'', ''2'', ''3'']") auto
  from w b i obtain pf k els rt where r: "proofs 1 = Some pf"
    "BigInt ([''1'', ''2'', ''3''] ! 1) = Some k"
    "idHash pf = toStringRadix 10 (F_toObject (toyPoseidon [F_e k]))"
    "length (pathElements pf) = 20" "length (pathIndices pf) = 20"
    "pathPosition (pathIndices pf) = 1"
    "those (map BigInt (pathElements pf)) = Some els"
    "BigInt root = Some rt"
    "MerkleTreeProof toyPoseidon (toyPoseidon [F_e k]) els (map int (pathIndices pf)) = Some rt"
    "verifyInclusion toyPoseidon pf root"
    by blast
  from r(2) two have "k = 2" by simp
  moreover from w b have "BigInt root =
      Some (treeNode toyPoseidon (whitelistLeaf toyPoseidon [''1'', ''2'', ''3'']) 20 0)"
    by blast
  ultimately show ?thesis using fieldHash_toyPoseidon n b i r by blast
qed


subsection \<open>Nullifier\<close>

text \<open>
  C5. For all commitments, every quantity and all secrets \<open>s1\<close>, \<open>s2\<close>,
  \<open>computeNullifier\<close> gives the same result when the two secrets are exchanged: they
  reach the hash only through their sum. This includes the case where a commitment
  string is not a number and the call throws.
\<close>

theorem computeNullifier_symmetric:
  "computeNullifier poseidon buyCommit sellCommit qty s1 s2 =
   computeNullifier poseidon buyCommit sellCommit qty s2 s1"
  by (simp only: computeNullifier_def add.commute [of s1 s2])

subsection \<open>The two asset hashes\<close>

text \<open>
  C10. For every asset address the prover's \<open>hashAsset\<close> and the matching engine's
  \<open>hashAssetAddress\<close> return the same value: the decimal string of the Poseidon digest
  of the one field element obtained by reading the UTF-8 bytes of the address as a
  big-endian integer and reducing it. On the empty address both throw.
\<close>

theorem hashAsset_eq_hashAssetAddress:
  "hashAsset poseidon addr = hashAssetAddress poseidon addr \<and>
   hashAsset poseidon addr =
     (if addr = [] then None
      else Some (F_toString (poseidon [F_e (int (be_nat (Buffer_from addr)))])))"
proof -
  have "Buffer_from addr = [] \<longleftrightarrow> addr = []" by (simp add: Buffer_from_def)
  then show ?thesis
    unfolding hashAsset_def hashAssetAddress_def BigInt_hex_bytes by simp
qed


subsection \<open>Order submission route\<close>











subsection \<open>WebSocket heartbeat\<close>

lemma setAlive_absent: "c \<notin> fst ` set cs \<Longrightarrow> setAlive c v cs = cs"
  by (induction cs) (auto simp: setAlive_def)

lemma filter_absent: "c \<notin> fst ` set cs \<Longrightarrow> filter (\<lambda>(d, a). d \<noteq> c) cs = cs"
  by (induction cs) auto

lemma map_of_absent: "c \<notin> fst ` set cs \<Longrightarrow> map_of (cs @ ds) c = map_of ds c"
  by (induction cs) auto

lemma fold_heartbeatClient:
  "distinct (map fst (pre @ suf)) \<Longrightarrow> clients st = pre @ suf \<Longrightarrow>
   fold (heartbeatClient rc) (map fst suf) (st, out) =
     (st\<lparr>clients := pre @ map (\<lambda>(c, a). (c, False)) (filter snd suf),
         subscriptionManager :=
           fold rc (map fst (filter (\<lambda>(c, a). \<not> a) suf)) (subscriptionManager st)\<rparr>,
      out @ map (\<lambda>(c, a). if a then Ping c else Terminate c) suf)"
proof (induction suf arbitrary: pre st out)
  case Nil
  then show ?case by simp
next
  case (Cons x suf)
  obtain c a where x: "x = (c, a)" by (cases x)
  from Cons.prems(1) have c_pre: "c \<notin> fst ` set pre" and c_suf: "c \<notin> fst ` set suf"
    by (auto simp: x)
  have look: "map_of (clients st) c = Some a"
    unfolding Cons.prems(2) x map_of_absent [OF c_pre] by simp
  show ?case
  proof (cases a)
    case True
    let ?st = "st\<lparr>clients := (pre @ [(c, False)]) @ suf\<rparr>"
    have upd: "setAlive c False (clients st) = (pre @ [(c, False)]) @ suf"
      using setAlive_absent [OF c_pre, of False] setAlive_absent [OF c_suf, of False]
      by (simp add: Cons.prems(2) x setAlive_def)
    have step: "heartbeatClient rc c (st, out) = (?st, out @ [Ping c])"
      using True look by (simp add: heartbeatClient_def upd)
    have d: "distinct (map fst ((pre @ [(c, False)]) @ suf))"
      using Cons.prems(1) by (simp add: x)
    have "fold (heartbeatClient rc) (map fst (x # suf)) (st, out) =
          fold (heartbeatClient rc) (map fst suf) (?st, out @ [Ping c])"
      by (simp add: x step)
    also have "\<dots> = (?st\<lparr>clients := (pre @ [(c, False)]) @ map (\<lambda>(c, a). (c, False)) (filter snd suf),
         subscriptionManager :=
           fold rc (map fst (filter (\<lambda>(c, a). \<not> a) suf)) (subscriptionManager ?st)\<rparr>,
      (out @ [Ping c]) @ map (\<lambda>(c, a). if a then Ping c else Terminate c) suf)"
      by (rule Cons.IH [OF d]) simp
    finally show ?thesis using True by (simp add: x)
  next
    case False
    let ?st = "st\<lparr>clients := pre @ suf,
                   subscriptionManager := rc c (subscriptionManager st)\<rparr>"
    have upd: "filter (\<lambda>(d, a). d \<noteq> c) (clients st) = pre @ suf"
      using filter_absent [OF c_pre] filter_absent [OF c_suf]
      by (simp add: Cons.prems(2) x)
    have step: "heartbeatClient rc c (st, out) = (?st, out @ [Terminate c])"
      using False look by (simp add: heartbeatClient_def upd)
    have d: "distinct (map fst (pre @ suf))"
      using Cons.prems(1) by (simp add: x)
    have "fold (heartbeatClient rc) (map fst (x # suf)) (st, out) =
          fold (heartbeatClient rc) (map fst suf) (?st, out @ [Terminate c])"
      by (simp add: x step)
    also have "\<dots> = (?st\<lparr>clients := pre @ map (\<lambda>(c, a). (c, False)) (filter snd suf),
         subscriptionManager :=
           fold rc (map fst (filter (\<lambda>(c, a). \<not> a) suf)) (subscriptionManager ?st)\<rparr>,
      (out @ [Terminate c]) @ map (\<lambda>(c, a). if a then Ping c else Terminate c) suf)"
      by (rule Cons.IH [OF d]) simp
    finally show ?thesis using False by (simp add: x)
  qed
qed

lemma heartbeat_closed_form:
  assumes "distinct (map fst (clients st))"
  shows "heartbeat rc st =
     (st\<lparr>clients := map (\<lambda>(c, a). (c, False)) (filter snd (clients st)),
         subscriptionManager :=
           fold rc (map fst (filter (\<lambda>(c, a). \<not> a) (clients st))) (subscriptionManager st)\<rparr>,
      map (\<lambda>(c, a). if a then Ping c else Terminate c) (clients st))"
  unfolding heartbeat_def
  using fold_heartbeatClient [of "[]" "clients st" st rc "[]"] assms by simp


lemma terminate_in_actions:
  "distinct (map fst cs) \<Longrightarrow>
   Terminate c \<in> set (map (\<lambda>(c, a). if a then Ping c else Terminate c) cs) \<longleftrightarrow>
   map_of cs c = Some False"
  by (induction cs) (auto split: if_splits simp: rev_image_eqI)

lemma ping_in_actions:
  "distinct (map fst cs) \<Longrightarrow>
   Ping c \<in> set (map (\<lambda>(c, a). if a then Ping c else Terminate c) cs) \<longleftrightarrow>
   map_of cs c = Some True"
  by (induction cs) (auto split: if_splits simp: rev_image_eqI)

lemma map_of_after_tick:
  "distinct (map fst cs) \<Longrightarrow>
   map_of (map (\<lambda>(c, a). (c, False)) (filter snd cs)) c =
     (if map_of cs c = Some True then Some False else None)"
  by (induction cs) (auto split: if_splits simp: rev_image_eqI map_of_eq_None_iff)

lemma distinct_after_tick:
  "distinct (map fst cs) \<Longrightarrow> distinct (map fst (map (\<lambda>(c, a). (c, False)) (filter snd cs)))"
  by (induction cs) (auto split: if_splits simp: rev_image_eqI)

lemma fst_setAlive: "map fst (setAlive c v cs) = map fst cs"
  by (induction cs) (auto simp: setAlive_def)

lemma map_of_setAlive:
  "map_of (setAlive c v cs) d = (if d = c \<and> map_of cs c \<noteq> None then Some v else map_of cs d)"
  by (induction cs) (auto simp: setAlive_def)

text \<open>
  C9 (amended). At each firing of the 30-second interval every connected client is
  either pinged or terminated. A client is terminated, and its subscriptions released,
  exactly when its flag is \<open>false\<close>, that is when it has not answered the ping of the
  previous firing: a client pinged at one firing that sends no pong is terminated at
  the next firing, and one that sends a pong in between is not.
\<close>

theorem heartbeat_policy:
  assumes d: "distinct (map fst (clients st))" and c: "map_of (clients st) c = Some alive"
  shows "snd (heartbeat rc st) = map (\<lambda>(c, a). if a then Ping c else Terminate c) (clients st) \<and>
         (Terminate c \<in> set (snd (heartbeat rc st)) \<longleftrightarrow> \<not> alive) \<and>
         (Ping c \<in> set (snd (heartbeat rc st)) \<longleftrightarrow> alive) \<and>
         map_of (clients (fst (heartbeat rc st))) c = (if alive then Some False else None) \<and>
         subscriptionManager (fst (heartbeat rc st)) =
           fold rc (map fst (filter (\<lambda>(c, a). \<not> a) (clients st))) (subscriptionManager st) \<and>
         (alive \<longrightarrow> Terminate c \<in> set (snd (heartbeat rc (fst (heartbeat rc st))))) \<and>
         (alive \<longrightarrow> Terminate c \<notin> set (snd (heartbeat rc (onPong c (fst (heartbeat rc st))))))"
proof -
  let ?st1 = "fst (heartbeat rc st)"
  have acts: "snd (heartbeat rc st) = map (\<lambda>(c, a). if a then Ping c else Terminate c) (clients st)"
    by (simp add: heartbeat_closed_form [OF d])
  have cl1: "clients ?st1 = map (\<lambda>(c, a). (c, False)) (filter snd (clients st))"
    by (simp add: heartbeat_closed_form [OF d])
  have subs: "subscriptionManager ?st1 =
           fold rc (map fst (filter (\<lambda>(c, a). \<not> a) (clients st))) (subscriptionManager st)"
    by (simp add: heartbeat_closed_form [OF d])
  have d1: "distinct (map fst (clients ?st1))"
    unfolding cl1 by (rule distinct_after_tick [OF d])
  have look1: "map_of (clients ?st1) c = (if alive then Some False else None)"
    unfolding cl1 map_of_after_tick [OF d] by (simp add: c)
  have killed: "Terminate c \<in> set (snd (heartbeat rc st)) \<longleftrightarrow> \<not> alive"
    unfolding acts terminate_in_actions [OF d] by (simp add: c)
  have pinged: "Ping c \<in> set (snd (heartbeat rc st)) \<longleftrightarrow> alive"
    unfolding acts ping_in_actions [OF d] by (simp add: c)
  have second: "Terminate c \<in> set (snd (heartbeat rc ?st1))" if "alive"
  proof -
    have e: "snd (heartbeat rc ?st1) =
          map (\<lambda>(c, a). if a then Ping c else Terminate c) (clients ?st1)"
      by (simp add: heartbeat_closed_form [OF d1])
    show ?thesis
      unfolding e terminate_in_actions [OF d1] using look1 that by simp
  qed
  have answered: "Terminate c \<notin> set (snd (heartbeat rc (onPong c ?st1)))" if "alive"
  proof -
    let ?st2 = "onPong c ?st1"
    have d2: "distinct (map fst (clients ?st2))"
      using d1 by (simp add: onPong_def fst_setAlive)
    have look2: "map_of (clients ?st2) c = Some True"
      using look1 that by (simp add: onPong_def map_of_setAlive)
    have e: "snd (heartbeat rc ?st2) =
          map (\<lambda>(c, a). if a then Ping c else Terminate c) (clients ?st2)"
      by (simp add: heartbeat_closed_form [OF d2])
    show ?thesis
      unfolding e terminate_in_actions [OF d2] using look2 by simp
  qed
  from acts killed pinged look1 subs second answered show ?thesis by blast
qed

theorem heartbeat_policy_witness:
  "distinct (map fst (clients oneClient)) \<and> map_of (clients oneClient) 7 = Some True \<and>
   Ping 7 \<in> set (snd (heartbeat dropClient oneClient)) \<and>
   Terminate 7 \<notin> set (snd (heartbeat dropClient oneClient)) \<and>
   Terminate 7 \<in> set (snd (heartbeat dropClient (fst (heartbeat dropClient oneClient))))"
proof -
  have d: "distinct (map fst (clients oneClient))" by (simp add: oneClient_def)
  have c: "map_of (clients oneClient) 7 = Some True" by (simp add: oneClient_def)
  from heartbeat_policy [OF d c, of dropClient] d c show ?thesis by blast
qed

text \<open>
  C9 as stated fails: a client that connects and never answers is pinged once, at the
  first firing, and terminated at the second firing, with its subscriptions released:
  one unanswered ping is enough.
\<close>

theorem one_missed_ping_counterexample:
  "wsRun dropClient [Connection 0, HeartbeatTick, HeartbeatTick] (newWsServer [(0, ''trader:G'')]) =
     (\<lparr>clients = [], subscriptionManager = []\<rparr>, [Ping 0, Terminate 0])"
  by code_simp


end
